theory Spec2Isabelle
  imports Complex_Main "HOL-Library.Log_Nat"
begin

section \<open>retry-mini: the retry loop of index.js\<close>

text \<open>
  The package consists of one asynchronous function, \<open>retryMini(task, options)\<close>. It runs
  \<open>task(attemptNumber)\<close> for \<open>attemptNumber = 0, 1, ...\<close> while
  \<open>attemptNumber <= maxRetries\<close>; a failed attempt consults \<open>shouldRetry\<close>, then calls
  \<open>onRetry\<close>, computes a wait time and sleeps on a timer.

  The embedding below follows the source line by line.
  \<^item> JavaScript values (what a task returns or throws, what a hook returns) are the datatype
    \<open>jsval\<close>; \<open>'o\<close> stands for the objects (an \<open>Error\<close> with its fields, say), which the loop
    only ever passes along.
  \<^item> A call of a caller-supplied function is effectful: it reads and changes the world
    (closures, mocks, the clock). The world is a state \<open>'s\<close> that every call takes and
    returns; a call either returns a value or throws one (\<open>completion\<close>). \<open>await\<close> of a
    promise is the same thing: resolved is \<open>Returns\<close>, rejected is \<open>Throws\<close>.
  \<^item> \<open>Math.random\<close> is a function on the world; the timer and every call are recorded in a
    trace of \<open>event\<close>s, so that "how often" and "in which order" are statements about a list.
  \<^item> The wait time is computed in double precision, as the source computes it: \<open>baseDelay\<close>,
    \<open>backoffFactor\<close>, \<open>jitter\<close>, the random draw and the wait are values of the type
    \<open>number\<close> (a finite double, an infinity or \<open>NaN\<close>), and every product, sum and
    difference is rounded to the nearest double, ties to even.
  \<^item> \<open>maxRetries\<close> is only compared with the loop counter, never computed with. It is a
    finite real number here, and the loop counter is a natural number (the counter of the
    source is exact up to \<open>2^53\<close>); a run with \<open>maxRetries\<close> \<open>NaN\<close> or infinite has no model.
  \<^item> A call that never returns (a promise that is never settled) has no model: the caller's
    functions are total functions of the world.
\<close>

subsection \<open>Numbers\<close>

text \<open>
  A JavaScript number is an IEEE 754 binary64 value. A finite one is the real number it
  denotes (the two zeros are one value here: the source never divides and never looks at
  the sign of a zero); \<open>Infty True\<close> is \<open>Infinity\<close> and \<open>Infty False\<close> is \<open>-Infinity\<close>.
\<close>

datatype number = Num real | Infty bool | NaN

text \<open>
  Rounding to nearest, ties to even. \<open>expo x\<close> is the exponent of the binade of \<open>x\<close>,
  the integer \<open>e\<close> with \<open>2^e \<le> |x| < 2^(e+1)\<close>, read off the bit length of the integer
  part of \<open>|x|\<close> or of \<open>1/|x|\<close>, and not below \<open>-1022\<close>. The doubles around \<open>x\<close> are
  the multiples of \<open>quantum x\<close>: 53 significant bits in the binade of \<open>x\<close>, and the
  fixed spacing \<open>2^-1074\<close> below \<open>2^-1022\<close> (the subnormal numbers). \<open>roundEven\<close> picks
  the nearest integer, the even one at a tie. A result of magnitude \<open>2^1024\<close> or more is
  an overflow.
\<close>

definition roundEven :: "real \<Rightarrow> int" where
  "roundEven y =
     (let f = \<lfloor>y\<rfloor>; d = y - of_int f in
      if d < 1 / 2 then f else if 1 / 2 < d then f + 1 else if even f then f else f + 1)"

definition expo :: "real \<Rightarrow> int" where
  "expo x =
     max (if 1 \<le> \<bar>x\<bar> then bitlen \<lfloor>\<bar>x\<bar>\<rfloor> - 1 else - bitlen (\<lceil>1 / \<bar>x\<bar>\<rceil> - 1)) (- 1022)"

definition quantum :: "real \<Rightarrow> real" where
  "quantum x = 2 powi (expo x - 52)"

definition rnd :: "real \<Rightarrow> real" where
  "rnd x = (if x = 0 then 0 else of_int (roundEven (x / quantum x)) * quantum x)"

definition round64 :: "real \<Rightarrow> number" where
  "round64 x = (if 2 ^ 1024 \<le> \<bar>rnd x\<bar> then Infty (0 < x) else Num (rnd x))"

text \<open>The operators \<open>a * b\<close>, \<open>a + b\<close> and \<open>a - b\<close>.\<close>

fun mulN :: "number \<Rightarrow> number \<Rightarrow> number" where
  "mulN NaN b = NaN"
| "mulN a NaN = NaN"
| "mulN (Num a) (Num b) = round64 (a * b)"
| "mulN (Num a) (Infty p) = (if a = 0 then NaN else Infty ((0 < a) = p))"
| "mulN (Infty p) (Num b) = (if b = 0 then NaN else Infty ((0 < b) = p))"
| "mulN (Infty p) (Infty q) = Infty (p = q)"

fun addN :: "number \<Rightarrow> number \<Rightarrow> number" where
  "addN NaN b = NaN"
| "addN a NaN = NaN"
| "addN (Num a) (Num b) = round64 (a + b)"
| "addN (Num a) (Infty p) = Infty p"
| "addN (Infty p) (Num b) = Infty p"
| "addN (Infty p) (Infty q) = (if p = q then Infty p else NaN)"

fun negN :: "number \<Rightarrow> number" where
  "negN (Num a) = Num (- a)"
| "negN (Infty p) = Infty (\<not> p)"
| "negN NaN = NaN"

definition subN :: "number \<Rightarrow> number \<Rightarrow> number" where
  "subN a b = addN a (negN b)"

text \<open>
  \<open>base ** exponent\<close> for an exponent that is a non-negative integer (the loop counter).
  ECMAScript fixes the result for the exponent 0 (it is 1, also for \<open>NaN ** 0\<close>), for a
  \<open>NaN\<close> base and for an infinite base; for a finite base it asks for an approximation of
  the power, which is taken here as the power rounded to the nearest double.
\<close>

fun powN :: "number \<Rightarrow> nat \<Rightarrow> number" where
  "powN b 0 = Num 1"
| "powN NaN (Suc k) = NaN"
| "powN (Infty p) (Suc k) = Infty (p \<or> even (Suc k))"
| "powN (Num a) (Suc k) = round64 (a ^ Suc k)"

text \<open>\<open>Math.max(a, b)\<close>, \<open>Math.floor(a)\<close> and the test \<open>a > 0\<close>.\<close>

fun mathMax :: "number \<Rightarrow> number \<Rightarrow> number" where
  "mathMax NaN b = NaN"
| "mathMax a NaN = NaN"
| "mathMax (Num a) (Num b) = Num (max a b)"
| "mathMax (Infty p) (Num b) = (if p then Infty True else Num b)"
| "mathMax (Num a) (Infty q) = (if q then Infty True else Num a)"
| "mathMax (Infty p) (Infty q) = Infty (p \<or> q)"

fun mathFloor :: "number \<Rightarrow> number" where
  "mathFloor (Num a) = Num (of_int \<lfloor>a\<rfloor>)"
| "mathFloor (Infty p) = Infty p"
| "mathFloor NaN = NaN"

fun gtZero :: "number \<Rightarrow> bool" where
  "gtZero (Num a) = (0 < a)"
| "gtZero (Infty p) = p"
| "gtZero NaN = False"

text \<open>A decimal literal of the source text, such as \<open>0.9999\<close>, denotes the nearest double.\<close>

definition literal :: "real \<Rightarrow> number" where
  "literal x = round64 x"

subsection \<open>Values\<close>

datatype 'o jsval =
    JUndefined
  | JNull
  | JBool bool
  | JNum number
  | JBigInt int
  | JStr string
  | JSymbol string
  | JObj 'o

text \<open>
  JavaScript's \<open>ToBoolean\<close>, which \<open>!retryAllowed\<close> applies. Every object is truthy: the
  one falsy object of the language, \<open>document.all\<close> of a browser, is not among the objects
  \<open>'o\<close>.
\<close>

fun truthy :: "'o jsval \<Rightarrow> bool" where
  "truthy JUndefined = False"
| "truthy JNull = False"
| "truthy (JBool b) = b"
| "truthy (JNum x) = (x \<noteq> Num 0 \<and> x \<noteq> NaN)"
| "truthy (JBigInt i) = (i \<noteq> 0)"
| "truthy (JStr str) = (str \<noteq> [])"
| "truthy (JSymbol name) = True"
| "truthy (JObj obj) = True"

text \<open>The operator \<open>a ?? b\<close>: \<open>b\<close> when \<open>a\<close> is \<open>undefined\<close> or \<open>null\<close>, else \<open>a\<close>.\<close>

fun nullish :: "'o jsval \<Rightarrow> bool" where
  "nullish JUndefined = True"
| "nullish JNull = True"
| "nullish v = False"

definition coalesce :: "'o jsval \<Rightarrow> 'o jsval \<Rightarrow> 'o jsval" where
  "coalesce a b = (if nullish a then b else a)"

text \<open>The same operator on an option that is absent (or \<open>undefined\<close>, or \<open>null\<close>).\<close>

fun orDefault :: "'a option \<Rightarrow> 'a \<Rightarrow> 'a" where
  "orDefault None d = d"
| "orDefault (Some v) d = v"

subsection \<open>Calls, options and the trace\<close>

datatype 'o completion = Returns "'o jsval" | Throws "'o jsval"

type_synonym ('s, 'o) task = "nat \<Rightarrow> 's \<Rightarrow> 'o completion \<times> 's"

type_synonym ('s, 'o) hook = "'o jsval \<Rightarrow> nat \<Rightarrow> 's \<Rightarrow> 'o completion \<times> 's"

record ('s, 'o) options =
  maxRetries :: "real option"
  baseDelay :: "number option"
  backoffFactor :: "number option"
  jitter :: "number option"
  shouldRetry :: "('s, 'o) hook option"
  onRetry :: "('s, 'o) hook option"

text \<open>The six constants that the first lines of \<open>retryMini\<close> bind.\<close>

record ('s, 'o) settings =
  c_maxRetries :: real
  c_baseDelay :: number
  c_backoffFactor :: number
  c_jitter :: number
  c_shouldRetry :: "('s, 'o) hook"
  c_onRetry :: "('s, 'o) hook"

datatype 'o event =
    TaskCall nat "'o completion"
  | ShouldRetryCall "'o jsval" nat "'o completion"
  | OnRetryCall "'o jsval" nat "'o completion"
  | RandomCall number
  | SetTimeout number

text \<open>The default hooks \<open>() => true\<close> and \<open>() => {}\<close>.\<close>

definition defaultShouldRetry :: "('s, 'o) hook" where
  "defaultShouldRetry error attemptNumber s = (Returns (JBool True), s)"

definition defaultOnRetry :: "('s, 'o) hook" where
  "defaultOnRetry error attemptNumber s = (Returns JUndefined, s)"

text \<open>
  \<open>options?.field ?? default\<close>, field by field. The argument \<open>None\<close> is a call without
  options (or with \<open>null\<close>): every field is then absent.
\<close>

definition field :: "(('s, 'o) options \<Rightarrow> 'a option) \<Rightarrow> ('s, 'o) options option \<Rightarrow> 'a option" where
  "field f opts = (case opts of None \<Rightarrow> None | Some r \<Rightarrow> f r)"

definition readOptions :: "('s, 'o) options option \<Rightarrow> ('s, 'o) settings" where
  "readOptions opts =
     \<lparr> c_maxRetries = orDefault (field maxRetries opts) 3,
       c_baseDelay = orDefault (field baseDelay opts) (Num 0),
       c_backoffFactor = orDefault (field backoffFactor opts) (Num 1),
       c_jitter = orDefault (field jitter opts) (Num 0),
       c_shouldRetry = orDefault (field shouldRetry opts) defaultShouldRetry,
       c_onRetry = orDefault (field onRetry opts) defaultOnRetry \<rparr>"

subsection \<open>The wait time\<close>

text \<open>
  \<open>let waitTime = baseDelay * Math.max(1, backoffFactor ** attemptNumber)\<close>, then, under
  \<open>waitTime > 0 && jitter > 0\<close>, one draw of \<open>Math.random()\<close>,
  \<open>randomFactor = 1 + (Math.random() * 2 - 1) * jitter\<close> and
  \<open>waitTime = Math.floor(waitTime * randomFactor)\<close>.
\<close>

definition rawWait :: "number \<Rightarrow> number \<Rightarrow> nat \<Rightarrow> number" where
  "rawWait bd bf attemptNumber = mulN bd (mathMax (Num 1) (powN bf attemptNumber))"

definition randomFactor :: "number \<Rightarrow> number \<Rightarrow> number" where
  "randomFactor r jit = addN (Num 1) (mulN (subN (mulN r (Num 2)) (Num 1)) jit)"

definition jittered :: "number \<Rightarrow> number \<Rightarrow> number \<Rightarrow> number" where
  "jittered waitTime jit r = mathFloor (mulN waitTime (randomFactor r jit))"

definition computeWait ::
  "('s \<Rightarrow> number \<times> 's) \<Rightarrow> ('s, 'o) settings \<Rightarrow> nat \<Rightarrow> 's \<Rightarrow> number \<times> 'o event list \<times> 's" where
  "computeWait random c attemptNumber s =
     (let waitTime = rawWait (c_baseDelay c) (c_backoffFactor c) attemptNumber in
      if gtZero waitTime \<and> gtZero (c_jitter c)
      then (case random s of (r, s') \<Rightarrow> (jittered waitTime (c_jitter c) r, [RandomCall r], s'))
      else (waitTime, [], s))"

text \<open>\<open>if (waitTime > 0) await new Promise(resolve => setTimeout(resolve, waitTime))\<close>\<close>

definition sleep :: "number \<Rightarrow> 'o event list" where
  "sleep waitTime = (if gtZero waitTime then [SetTimeout waitTime] else [])"

subsection \<open>One iteration of the loop\<close>

text \<open>
  How the body of the \<open>for\<close> loop is left: by \<open>return\<close>, by an exception that nothing
  catches (a hook threw inside the \<open>catch\<close> block), by \<open>break\<close>, or by falling through to
  \<open>attemptNumber++\<close>.
\<close>

datatype 'o flow = Return "'o jsval" | Throw "'o jsval" | Break | Next

text \<open>
  The body returns how it was left, the new value of \<open>lastError\<close>, the events it caused
  and the new world.
\<close>

definition attempt ::
  "('s \<Rightarrow> number \<times> 's) \<Rightarrow> ('s, 'o) task \<Rightarrow> ('s, 'o) settings \<Rightarrow> nat \<Rightarrow> 'o jsval \<Rightarrow> 's
     \<Rightarrow> 'o flow \<times> 'o jsval \<times> 'o event list \<times> 's" where
  "attempt random task c attemptNumber lastError s =
     (case task attemptNumber s of
        (Returns v, s1) \<Rightarrow> (Return v, lastError, [TaskCall attemptNumber (Returns v)], s1)
      | (Throws error, s1) \<Rightarrow>
          (case c_shouldRetry c error attemptNumber s1 of
             (Throws h, s2) \<Rightarrow>
               (Throw h, error,
                [TaskCall attemptNumber (Throws error),
                 ShouldRetryCall error attemptNumber (Throws h)], s2)
           | (Returns r, s2) \<Rightarrow>
               (let retryAllowed = coalesce r (JBool True) in
                if \<not> truthy retryAllowed \<or> real attemptNumber = c_maxRetries c
                then (Break, error,
                      [TaskCall attemptNumber (Throws error),
                       ShouldRetryCall error attemptNumber (Returns r)], s2)
                else
                  (case c_onRetry c error attemptNumber s2 of
                     (Throws h, s3) \<Rightarrow>
                       (Throw h, error,
                        [TaskCall attemptNumber (Throws error),
                         ShouldRetryCall error attemptNumber (Returns r),
                         OnRetryCall error attemptNumber (Throws h)], s3)
                   | (Returns u, s3) \<Rightarrow>
                       (case computeWait random c attemptNumber s3 of
                          (waitTime, draws, s4) \<Rightarrow>
                            (Next, error,
                             [TaskCall attemptNumber (Throws error),
                              ShouldRetryCall error attemptNumber (Returns r),
                              OnRetryCall error attemptNumber (Returns u)]
                             @ draws @ sleep waitTime, s4))))))"

subsection \<open>The loop and the function\<close>

text \<open>
  \<open>for (let attemptNumber = 0; attemptNumber <= maxRetries; attemptNumber++) { ... }
  throw lastError;\<close>
  The result is the completion of the promise, the trace and the final world.
\<close>

function loop ::
  "('s \<Rightarrow> number \<times> 's) \<Rightarrow> ('s, 'o) task \<Rightarrow> ('s, 'o) settings \<Rightarrow> nat \<Rightarrow> 'o jsval \<Rightarrow> 's
     \<Rightarrow> 'o completion \<times> 'o event list \<times> 's" where
  "loop random task c attemptNumber lastError s =
     (if real attemptNumber \<le> c_maxRetries c then
        (case attempt random task c attemptNumber lastError s of
           (fl, lastError', evs, s') \<Rightarrow>
             (case fl of
                Return v \<Rightarrow> (Returns v, evs, s')
              | Throw h \<Rightarrow> (Throws h, evs, s')
              | Break \<Rightarrow> (Throws lastError', evs, s')
              | Next \<Rightarrow>
                  (case loop random task c (Suc attemptNumber) lastError' s' of
                     (out, evs', s'') \<Rightarrow> (out, evs @ evs', s''))))
      else (Throws lastError, [], s))"
  by pat_completeness auto
termination
proof (relation "measure (\<lambda>(random, task, c, attemptNumber, lastError, s).
          nat (\<lfloor>c_maxRetries c\<rfloor> + 1) - attemptNumber)", goal_cases)
  case 1
  show ?case by simp
next
  case (2 random task c attemptNumber lastError s)
  from \<open>real attemptNumber \<le> c_maxRetries c\<close>
  have "int attemptNumber \<le> \<lfloor>c_maxRetries c\<rfloor>"
    by (simp add: le_floor_iff)
  then show ?case by simp
qed

declare loop.simps [simp del]

definition retryMini ::
  "('s \<Rightarrow> number \<times> 's) \<Rightarrow> ('s, 'o) task \<Rightarrow> ('s, 'o) options option \<Rightarrow> 's
     \<Rightarrow> 'o completion \<times> 'o event list \<times> 's" where
  "retryMini random task opts s = loop random task (readOptions opts) 0 JUndefined s"

subsection \<open>Reading a trace\<close>

text \<open>The task invocations of a trace, in order: the argument and how the call ended.\<close>

fun taskCalls :: "'o event list \<Rightarrow> (nat \<times> 'o completion) list" where
  "taskCalls [] = []"
| "taskCalls (TaskCall k r # evs) = (k, r) # taskCalls evs"
| "taskCalls (ev # evs) = taskCalls evs"

text \<open>The durations of the timers of a trace, in order.\<close>

fun timers :: "'o event list \<Rightarrow> number list" where
  "timers [] = []"
| "timers (SetTimeout w # evs) = w # timers evs"
| "timers (ev # evs) = timers evs"

text \<open>The attempt during which a caller-supplied function was called.\<close>

fun attemptOf :: "'o event \<Rightarrow> nat option" where
  "attemptOf (TaskCall k r) = Some k"
| "attemptOf (ShouldRetryCall e k r) = Some k"
| "attemptOf (OnRetryCall e k r) = Some k"
| "attemptOf (RandomCall r) = None"
| "attemptOf (SetTimeout w) = None"

text \<open>A call of \<open>shouldRetry\<close> or \<open>onRetry\<close> that threw.\<close>

fun hookThrew :: "'o event \<Rightarrow> bool" where
  "hookThrew (ShouldRetryCall e k (Throws h)) = True"
| "hookThrew (OnRetryCall e k (Throws h)) = True"
| "hookThrew ev = False"

subsection \<open>Tasks, hooks and random sources of the test suite\<close>

text \<open>
  \<open>jest.fn().mockRejectedValue(error)\<close>, \<open>jest.fn().mockResolvedValue('success')\<close> and
  \<open>jest.fn().mockRejectedValueOnce(new Error('Fail')).mockResolvedValue('Done')\<close>. The last
  one depends on how often it was called before: its world is that number.
\<close>

definition failing :: "('s, 'o) task" where
  "failing attemptNumber s = (Throws (JStr ''Permanent Failure''), s)"

definition succeeding :: "('s, 'o) task" where
  "succeeding attemptNumber s = (Returns (JStr ''success''), s)"

definition mockOnce :: "(nat, 'o) task" where
  "mockOnce attemptNumber calls =
     (if calls = 0 then Throws (JStr ''Fail'') else Returns (JStr ''Done''), Suc calls)"

text \<open>A task that fails every time, each time with another error: the number of the call.\<close>

definition failingWith :: "(nat, 'o) task" where
  "failingWith attemptNumber calls = (Throws (JNum (Num (real calls))), Suc calls)"

text \<open>
  \<open>Math.random.mockReturnValue(0)\<close> and \<open>Math.random.mockReturnValue(0.9999)\<close>, and a random
  source at the largest double below 1, \<open>1 - 2^-53\<close>.
\<close>

definition randomMin :: "'s \<Rightarrow> number \<times> 's" where
  "randomMin s = (Num 0, s)"

definition randomNearMax :: "'s \<Rightarrow> number \<times> 's" where
  "randomNearMax s = (literal (9999 / 10000), s)"

definition randomMax :: "'s \<Rightarrow> number \<times> 's" where
  "randomMax s = (Num (1 - 1 / 2 ^ 53), s)"

text \<open>Hooks that return a fixed value, and one that throws.\<close>

definition hookReturning :: "'o jsval \<Rightarrow> ('s, 'o) hook" where
  "hookReturning v error attemptNumber s = (Returns v, s)"

definition hookThrowing :: "'o jsval \<Rightarrow> ('s, 'o) hook" where
  "hookThrowing h error attemptNumber s = (Throws h, s)"

text \<open>An options object with no property set: \<open>{}\<close>.\<close>

definition noOptions :: "('s, 'o) options" where
  "noOptions = \<lparr> maxRetries = None, baseDelay = None, backoffFactor = None, jitter = None,
                 shouldRetry = None, onRetry = None \<rparr>"

text \<open>The options of the backoff test and of the jitter tests of the suite.\<close>

definition backoffOptions :: "number \<Rightarrow> ('s, 'o) options" where
  "backoffOptions bf = noOptions \<lparr> baseDelay := Some (Num 100), backoffFactor := Some bf \<rparr>"

definition jitterOptions :: "number \<Rightarrow> ('s, 'o) options" where
  "jitterOptions jit =
     noOptions \<lparr> maxRetries := Some 1, baseDelay := Some (Num 100), jitter := Some jit \<rparr>"

section \<open>Properties\<close>

subsection \<open>Rounding\<close>

lemma roundEven_int [simp]: "roundEven (of_int n) = n"
  by (simp add: roundEven_def)

lemma roundEven_bounds: "\<lfloor>y\<rfloor> \<le> roundEven y" "roundEven y \<le> \<lfloor>y\<rfloor> + 1"
  by (simp_all add: roundEven_def Let_def)

lemma roundEven_mono: "y1 \<le> y2 \<Longrightarrow> roundEven y1 \<le> roundEven y2"
proof -
  assume le: "y1 \<le> y2"
  then have f: "\<lfloor>y1\<rfloor> \<le> \<lfloor>y2\<rfloor>" by (rule floor_mono)
  show ?thesis
  proof (cases "\<lfloor>y1\<rfloor> = \<lfloor>y2\<rfloor>")
    case True
    with le show ?thesis by (auto simp: roundEven_def Let_def)
  next
    case False
    with f have "\<lfloor>y1\<rfloor> + 1 \<le> \<lfloor>y2\<rfloor>" by simp
    with roundEven_bounds(2) [of y1] roundEven_bounds(1) [of y2] show ?thesis by linarith
  qed
qed

lemma roundEven_le_int: "y \<le> of_int n \<Longrightarrow> roundEven y \<le> n"
  using roundEven_mono [of y "of_int n"] by simp

lemma roundEven_ge_int: "of_int n \<le> y \<Longrightarrow> n \<le> roundEven y"
  using roundEven_mono [of "of_int n" y] by simp

lemma roundEven_minus: "roundEven (- y) = - roundEven y"
proof (cases "y = of_int \<lfloor>y\<rfloor>")
  case True
  then obtain n where "y = of_int n" ..
  then have "- y = of_int (- n)" by simp
  with \<open>y = of_int n\<close> show ?thesis by (simp only: roundEven_int)
next
  case False
  then have lt: "of_int \<lfloor>y\<rfloor> < y" using of_int_floor_le [of y] by linarith
  have "\<lfloor>- y\<rfloor> = - \<lfloor>y\<rfloor> - 1"
    using lt by (intro floor_unique) (simp_all, linarith)
  then show ?thesis
    by (auto simp: roundEven_def Let_def)
qed

lemma floor_log2_iff:
  assumes "0 < x"
  shows "\<lfloor>log 2 x\<rfloor> = k \<longleftrightarrow> 2 powi k \<le> x \<and> x < 2 powi (k + 1)"
proof -
  have a: "(2::real) powr real_of_int k = 2 powi k"
    by (rule powr_real_of_int') simp_all
  have "(2::real) powr real_of_int (k + 1) = 2 powi (k + 1)"
    by (rule powr_real_of_int') simp_all
  then have b: "(2::real) powr (real_of_int k + 1) = 2 powi (k + 1)" by simp
  from floor_log_eq_powr_iff [of x 2 k] assms show ?thesis by (simp add: a b)
qed

lemma binade_large:
  assumes "1 \<le> a"
  shows "\<lfloor>log 2 a\<rfloor> = bitlen \<lfloor>a\<rfloor> - 1"
proof -
  define n where "n = \<lfloor>a\<rfloor>"
  from assms have n: "1 \<le> n" by (simp add: n_def le_floor_iff)
  then have pos: "0 < n" by simp
  define j where "j = bitlen n - 1"
  from bitlen_bounds [OF pos] have lo: "2 ^ nat j \<le> n" and hi: "n < 2 ^ nat (j + 1)"
    by (simp_all add: j_def)
  from pos have "1 \<le> bitlen n" by (auto simp: bitlen_alt_def)
  then have j: "0 \<le> j" by (simp add: j_def)
  from lo have "(2::real) ^ nat j \<le> of_int n"
    by (metis of_int_le_iff of_int_numeral of_int_power)
  also have "of_int n \<le> a" by (simp add: n_def)
  finally have l: "2 powi j \<le> a" using j by (simp add: power_int_def)
  from hi have "n + 1 \<le> 2 ^ nat (j + 1)" by simp
  then have "(of_int (n + 1) :: real) \<le> 2 ^ nat (j + 1)"
    by (metis of_int_le_iff of_int_numeral of_int_power)
  moreover have "a < of_int (n + 1)" unfolding n_def by linarith
  ultimately have "a < 2 ^ nat (j + 1)" by simp
  then have h: "a < 2 powi (j + 1)" using j by (simp add: power_int_def)
  from assms have "0 < a" by simp
  with l h have "\<lfloor>log 2 a\<rfloor> = j" by (simp add: floor_log2_iff)
  then show ?thesis by (simp add: j_def n_def)
qed

lemma binade_small:
  assumes "0 < a" "a < 1"
  shows "\<lfloor>log 2 a\<rfloor> = - bitlen (\<lceil>1 / a\<rceil> - 1)"
proof -
  define y where "y = 1 / a"
  from assms have y: "1 < y" by (simp add: y_def)
  define m where "m = \<lceil>y\<rceil> - 1"
  have my: "of_int m < y" "y \<le> of_int m + 1" unfolding m_def by linarith+
  from y my(2) have "0 < real_of_int m" by linarith
  then have pos: "0 < m" by simp
  define j where "j = bitlen m"
  from pos have j: "1 \<le> j" by (auto simp: j_def bitlen_alt_def)
  from bitlen_bounds [OF pos] have lo: "2 ^ nat (j - 1) \<le> m" and hi: "m < 2 ^ nat j"
    by (simp_all add: j_def)
  from lo have "(2::real) ^ nat (j - 1) \<le> of_int m"
    by (metis of_int_le_iff of_int_numeral of_int_power)
  with my(1) have l: "2 ^ nat (j - 1) < y" by linarith
  from hi have "m + 1 \<le> 2 ^ nat j" by simp
  then have "(of_int (m + 1) :: real) \<le> 2 ^ nat j"
    by (metis of_int_le_iff of_int_numeral of_int_power)
  with my(2) have h: "y \<le> 2 ^ nat j" by simp
  have a: "a = 1 / y" using assms by (simp add: y_def)
  from h y have "1 / 2 ^ nat j \<le> a" unfolding a by (intro divide_left_mono) simp_all
  moreover have "(2::real) powi (- j) = 1 / 2 ^ nat j"
    using j by (simp add: power_int_def field_simps)
  ultimately have L: "2 powi (- j) \<le> a" by simp
  from l y have "a < 1 / 2 ^ nat (j - 1)" unfolding a
    by (intro divide_strict_left_mono mult_pos_pos) simp_all
  moreover have "(2::real) powi (- j + 1) = 1 / 2 ^ nat (j - 1)"
  proof -
    have "- j + 1 = - (j - 1)" by simp
    moreover from j have "0 \<le> j - 1" by simp
    ultimately show ?thesis by (simp add: power_int_def field_simps)
  qed
  ultimately have H: "a < 2 powi (- j + 1)" by simp
  from assms(1) L H have "\<lfloor>log 2 a\<rfloor> = - j" by (simp add: floor_log2_iff)
  then show ?thesis by (simp add: j_def m_def y_def)
qed

lemma expo_log:
  assumes "x \<noteq> 0"
  shows "expo x = max \<lfloor>log 2 \<bar>x\<bar>\<rfloor> (- 1022)"
proof (cases "1 \<le> \<bar>x\<bar>")
  case True
  with binade_large [OF True] show ?thesis by (simp add: expo_def)
next
  case False
  with assms have "0 < \<bar>x\<bar>" "\<bar>x\<bar> < 1" by simp_all
  from binade_small [OF this] False show ?thesis by (simp add: expo_def)
qed

lemma expo_minus [simp]: "expo (- x) = expo x"
  by (simp add: expo_def)

lemma expo_abs [simp]: "expo \<bar>x\<bar> = expo x"
  by (simp add: expo_def)

lemma expo_ge: "- 1022 \<le> expo x"
  by (simp add: expo_def)

lemma expo_upper:
  assumes "x \<noteq> 0"
  shows "\<bar>x\<bar> < 2 powi (expo x + 1)"
proof -
  from assms have pos: "0 < \<bar>x\<bar>" by simp
  from floor_log2_iff [OF pos, of "\<lfloor>log 2 \<bar>x\<bar>\<rfloor>"]
  have "\<bar>x\<bar> < 2 powi (\<lfloor>log 2 \<bar>x\<bar>\<rfloor> + 1)" by simp
  also have "\<dots> \<le> 2 powi (expo x + 1)"
    by (intro power_int_increasing) (simp_all add: expo_log [OF assms])
  finally show ?thesis .
qed

lemma expo_lower:
  assumes "x \<noteq> 0" "2 powi (- 1022) \<le> \<bar>x\<bar>"
  shows "2 powi (expo x) \<le> \<bar>x\<bar>"
proof -
  from assms have pos: "0 < \<bar>x\<bar>" by simp
  from floor_log2_iff [OF pos, of "\<lfloor>log 2 \<bar>x\<bar>\<rfloor>"]
  have lo: "2 powi \<lfloor>log 2 \<bar>x\<bar>\<rfloor> \<le> \<bar>x\<bar>" by simp
  show ?thesis
  proof (cases "- 1022 \<le> \<lfloor>log 2 \<bar>x\<bar>\<rfloor>")
    case True
    then have "expo x = \<lfloor>log 2 \<bar>x\<bar>\<rfloor>" by (simp add: expo_log [OF assms(1)])
    with lo show ?thesis by simp
  next
    case False
    then have "expo x = - 1022" by (simp add: expo_log [OF assms(1)])
    with assms(2) show ?thesis by simp
  qed
qed

lemma expo_eqI:
  assumes "2 powi e \<le> \<bar>x\<bar>" "\<bar>x\<bar> < 2 powi (e + 1)" "- 1022 \<le> e"
  shows "expo x = e"
proof -
  from assms(1) have pos: "0 < \<bar>x\<bar>"
    using zero_less_power_int [of "2::real" e] by linarith
  from floor_log2_iff [OF pos, of e] assms have "\<lfloor>log 2 \<bar>x\<bar>\<rfloor> = e" by simp
  moreover from pos have "x \<noteq> 0" by simp
  ultimately show ?thesis using assms(3) by (simp add: expo_log)
qed

lemma expo_subnormal:
  assumes "x \<noteq> 0" "\<bar>x\<bar> < 2 powi (- 1022)"
  shows "expo x = - 1022"
proof -
  from assms have pos: "0 < \<bar>x\<bar>" by simp
  have "\<lfloor>log 2 \<bar>x\<bar>\<rfloor> < - 1022"
  proof (rule ccontr)
    assume "\<not> \<lfloor>log 2 \<bar>x\<bar>\<rfloor> < - 1022"
    then have "(2::real) powi (- 1022) \<le> 2 powi \<lfloor>log 2 \<bar>x\<bar>\<rfloor>"
      by (intro power_int_increasing) simp_all
    also from floor_log2_iff [OF pos, of "\<lfloor>log 2 \<bar>x\<bar>\<rfloor>"] have "\<dots> \<le> \<bar>x\<bar>" by simp
    finally show False using assms(2) by simp
  qed
  then show ?thesis by (simp add: expo_log [OF assms(1)])
qed

lemma expo_mono:
  assumes "x \<noteq> 0" "\<bar>x\<bar> \<le> \<bar>y\<bar>"
  shows "expo x \<le> expo y"
proof -
  from assms have "0 < \<bar>x\<bar>" by simp
  with assms(2) have "log 2 \<bar>x\<bar> \<le> log 2 \<bar>y\<bar>" by simp
  then have "\<lfloor>log 2 \<bar>x\<bar>\<rfloor> \<le> \<lfloor>log 2 \<bar>y\<bar>\<rfloor>" by (rule floor_mono)
  moreover from assms have "y \<noteq> 0" by auto
  ultimately show ?thesis by (simp add: expo_log assms(1))
qed

lemma quantum_pos [simp]: "0 < quantum x"
  by (simp add: quantum_def)

lemma quantum_nonneg [simp]: "0 \<le> quantum x"
  by (simp add: quantum_def)

lemma quantum_minus [simp]: "quantum (- x) = quantum x"
  by (simp add: quantum_def)

lemma rnd_minus: "rnd (- x) = - rnd x"
  by (simp add: rnd_def roundEven_minus)

lemma rnd_0 [simp]: "rnd 0 = 0"
  by (simp add: rnd_def)

lemma rnd_nonneg: "0 \<le> x \<Longrightarrow> 0 \<le> rnd x"
proof -
  assume "0 \<le> x"
  then have "of_int 0 \<le> x / quantum x" by (simp add: divide_nonneg_pos)
  then have "0 \<le> roundEven (x / quantum x)" by (rule roundEven_ge_int)
  then have "0 \<le> real_of_int (roundEven (x / quantum x)) * quantum x"
    by (intro mult_nonneg_nonneg) simp_all
  then show ?thesis by (simp add: rnd_def)
qed

lemma quantum_top: "2 ^ 53 * quantum x = 2 powi (expo x + 1)"
proof -
  have e: "expo x + 1 = 53 + (expo x - 52)" by simp
  have "(2::real) powi (53 + (expo x - 52)) = 2 powi 53 * 2 powi (expo x - 52)"
    by (rule power_int_add) simp
  then have "(2::real) powi (expo x + 1) = 2 powi 53 * 2 powi (expo x - 52)"
    by (simp only: e)
  then show ?thesis by (simp only: quantum_def power_int_numeral)
qed

lemma quantum_bottom: "2 ^ 52 * quantum x = 2 powi (expo x)"
proof -
  have e: "expo x = 52 + (expo x - 52)" by simp
  have "(2::real) powi (52 + (expo x - 52)) = 2 powi 52 * 2 powi (expo x - 52)"
    by (rule power_int_add) simp
  then have "(2::real) powi (expo x) = 2 powi 52 * 2 powi (expo x - 52)"
    by (simp only: e [symmetric])
  then show ?thesis by (simp only: quantum_def power_int_numeral)
qed

lemma rnd_upper:
  assumes "0 < x"
  shows "rnd x \<le> 2 powi (expo x + 1)"
proof -
  from assms expo_upper [of x] have "x < 2 powi (expo x + 1)" by simp
  then have "x < 2 ^ 53 * quantum x" by (simp only: quantum_top)
  then have "x / quantum x \<le> of_int (2 ^ 53)" by (simp add: pos_divide_le_eq)
  then have "roundEven (x / quantum x) \<le> 2 ^ 53" by (rule roundEven_le_int)
  then have "(of_int (roundEven (x / quantum x)) :: real) \<le> of_int (2 ^ 53)"
    by (simp only: of_int_le_iff)
  then have "of_int (roundEven (x / quantum x)) * quantum x \<le> 2 ^ 53 * quantum x"
    by (intro mult_right_mono) simp_all
  then have "of_int (roundEven (x / quantum x)) * quantum x \<le> 2 powi (expo x + 1)"
    by (simp only: quantum_top)
  with assms show ?thesis by (simp add: rnd_def)
qed

lemma rnd_lower:
  assumes "0 < x" "2 powi (- 1022) \<le> x"
  shows "2 powi (expo x) \<le> rnd x"
proof -
  from assms expo_lower [of x] have "2 powi (expo x) \<le> x" by simp
  then have "2 ^ 52 * quantum x \<le> x" by (simp only: quantum_bottom)
  then have "of_int (2 ^ 52) \<le> x / quantum x" by (simp add: pos_le_divide_eq)
  then have "2 ^ 52 \<le> roundEven (x / quantum x)" by (rule roundEven_ge_int)
  then have "(of_int (2 ^ 52) :: real) \<le> of_int (roundEven (x / quantum x))"
    by (simp only: of_int_le_iff)
  then have "2 ^ 52 * quantum x \<le> of_int (roundEven (x / quantum x)) * quantum x"
    by (intro mult_right_mono) simp_all
  then have "2 powi (expo x) \<le> of_int (roundEven (x / quantum x)) * quantum x"
    by (simp only: quantum_bottom)
  with assms show ?thesis by (simp add: rnd_def)
qed

lemma rnd_mono_pos:
  assumes "0 < x" "x \<le> y"
  shows "rnd x \<le> rnd y"
proof (cases "expo x = expo y")
  case True
  then have q: "quantum x = quantum y" by (simp add: quantum_def)
  from assms(2) have "x / quantum y \<le> y / quantum y"
    by (intro divide_right_mono) (simp_all add: less_imp_le)
  then have "roundEven (x / quantum y) \<le> roundEven (y / quantum y)" by (rule roundEven_mono)
  then have "(of_int (roundEven (x / quantum y)) :: real) \<le> of_int (roundEven (y / quantum y))"
    by (simp only: of_int_le_iff)
  then have "of_int (roundEven (x / quantum y)) * quantum y
      \<le> of_int (roundEven (y / quantum y)) * quantum y"
    by (intro mult_right_mono) simp_all
  with assms q show ?thesis by (simp add: rnd_def)
next
  case False
  from assms have "x \<noteq> 0" "\<bar>x\<bar> \<le> \<bar>y\<bar>" by simp_all
  then have "expo x \<le> expo y" by (rule expo_mono)
  with False have lt: "expo x + 1 \<le> expo y" by simp
  with expo_ge [of x] have "- 1022 < expo y" by simp
  have big: "2 powi (- 1022) \<le> y"
  proof (rule ccontr)
    assume "\<not> 2 powi (- 1022) \<le> y"
    with assms have "y \<noteq> 0" "\<bar>y\<bar> < 2 powi (- 1022)" by simp_all
    then have "expo y = - 1022" by (rule expo_subnormal)
    with \<open>- 1022 < expo y\<close> show False by simp
  qed
  from assms have "0 < y" by simp
  have "rnd x \<le> 2 powi (expo x + 1)" using assms(1) by (rule rnd_upper)
  also have "\<dots> \<le> 2 powi (expo y)" using lt by (intro power_int_increasing) simp_all
  also have "\<dots> \<le> rnd y" using \<open>0 < y\<close> big by (rule rnd_lower)
  finally show ?thesis .
qed

lemma rnd_mono:
  assumes "x \<le> y"
  shows "rnd x \<le> rnd y"
proof -
  consider "0 < x" | "x \<le> 0" "0 \<le> y" | "y < 0" by linarith
  then show ?thesis
  proof cases
    case 1
    from 1 assms show ?thesis by (rule rnd_mono_pos)
  next
    case 2
    from 2(1) have "0 \<le> rnd (- x)" by (intro rnd_nonneg) simp
    then have "rnd x \<le> 0" by (simp add: rnd_minus)
    also from 2(2) have "0 \<le> rnd y" by (rule rnd_nonneg)
    finally show ?thesis .
  next
    case 3
    with assms have "0 < - y" "- y \<le> - x" by simp_all
    then have "rnd (- y) \<le> rnd (- x)" by (rule rnd_mono_pos)
    then show ?thesis by (simp add: rnd_minus)
  qed
qed

lemma power_int_less_cancel:
  assumes "(2::real) powi a < 2 powi b"
  shows "a < b"
proof (rule ccontr)
  assume "\<not> a < b"
  then have "(2::real) powi b \<le> 2 powi a" by (intro power_int_increasing) simp_all
  with assms show False by simp
qed

lemma rnd_exact:
  assumes x: "x = of_int m * 2 powi e" and m: "\<bar>m\<bar> < 2 ^ 53" and e: "- 1074 \<le> e"
  shows "rnd x = x"
proof (cases "x = 0")
  case True
  then show ?thesis by simp
next
  case False
  then have pos: "0 < \<bar>x\<bar>" by simp
  from m have "\<bar>real_of_int m\<bar> < 2 ^ 53"
    by (metis of_int_abs of_int_less_iff of_int_numeral of_int_power)
  then have "\<bar>real_of_int m\<bar> * 2 powi e < 2 ^ 53 * 2 powi e"
    by (intro mult_strict_right_mono) simp_all
  also have "\<dots> = 2 powi (53 + e)"
    using power_int_add [of "2::real" 53 e] by simp
  finally have ub: "\<bar>x\<bar> < 2 powi (53 + e)" by (simp add: x abs_mult)
  from floor_log2_iff [OF pos, of "\<lfloor>log 2 \<bar>x\<bar>\<rfloor>"]
  have "2 powi \<lfloor>log 2 \<bar>x\<bar>\<rfloor> \<le> \<bar>x\<bar>" by simp
  with ub have "(2::real) powi \<lfloor>log 2 \<bar>x\<bar>\<rfloor> < 2 powi (53 + e)" by simp
  then have "\<lfloor>log 2 \<bar>x\<bar>\<rfloor> < 53 + e" by (rule power_int_less_cancel)
  with e have le: "expo x - 52 \<le> e" by (simp add: expo_log [OF False])
  define k where "k = nat (e - (expo x - 52))"
  from le have k: "e = (expo x - 52) + int k" by (simp add: k_def)
  from k have "(2::real) powi e = 2 powi ((expo x - 52) + int k)" by (rule arg_cong)
  also have "\<dots> = 2 powi (expo x - 52) * 2 powi (int k)"
    by (rule power_int_add) simp
  finally have pe: "(2::real) powi e = quantum x * 2 ^ k" by (simp add: quantum_def)
  define q where "q = quantum x"
  have q: "0 < q" by (simp add: q_def)
  from x have "x = of_int m * 2 powi e" .
  also have "\<dots> = of_int m * (q * 2 ^ k)" by (simp only: pe q_def)
  finally have xq: "x = of_int (m * 2 ^ k) * q" by simp
  with q have "x / q = of_int (m * 2 ^ k)" by simp
  then have "roundEven (x / q) = m * 2 ^ k" by (simp only: roundEven_int)
  then have "rnd x = of_int (m * 2 ^ k) * q" using False by (simp add: rnd_def q_def)
  with xq show ?thesis by simp
qed

lemma rnd_int: "\<bar>n\<bar> < 2 ^ 53 \<Longrightarrow> rnd (of_int n) = of_int n"
  using rnd_exact [of "of_int n" n 0] by simp

lemma rnd_eval:
  assumes "2 powi e \<le> \<bar>x\<bar>" "\<bar>x\<bar> < 2 powi (e + 1)" "- 1022 \<le> e"
  shows "rnd x = of_int (roundEven (x / 2 powi (e - 52))) * 2 powi (e - 52)"
proof -
  from assms have "expo x = e" by (rule expo_eqI)
  moreover have "0 < (2::real) powi e" by simp
  with assms(1) have "0 < \<bar>x\<bar>" by linarith
  then have "x \<noteq> 0" by simp
  ultimately show ?thesis by (simp add: rnd_def quantum_def)
qed

lemma rnd_abs: "\<bar>rnd x\<bar> = rnd \<bar>x\<bar>"
proof (cases "0 \<le> x")
  case True
  with rnd_nonneg [of x] show ?thesis by simp
next
  case False
  then have "0 \<le> rnd (- x)" by (intro rnd_nonneg) simp
  with False show ?thesis by (simp add: rnd_minus)
qed

lemma round64_cases: "round64 x = Num (rnd x) \<or> round64 x = Infty (0 < x)"
  by (simp add: round64_def)

lemma round64_exact:
  assumes "rnd x = x" "\<bar>x\<bar> < 2 ^ 1024"
  shows "round64 x = Num x"
  using assms by (simp add: round64_def)

lemma round64_between:
  assumes "lo \<le> x" "x \<le> hi" "rnd lo = lo" "rnd hi = hi" "- (2 ^ 1024) < lo" "hi < 2 ^ 1024"
  shows "\<exists>y. round64 x = Num y \<and> lo \<le> y \<and> y \<le> hi"
proof -
  from rnd_mono [OF assms(1)] assms(3) have lo: "lo \<le> rnd x" by simp
  from rnd_mono [OF assms(2)] assms(4) have hi: "rnd x \<le> hi" by simp
  from lo hi assms(5,6) have "\<bar>rnd x\<bar> < 2 ^ 1024" by linarith
  then have "round64 x = Num (rnd x)" by (simp add: round64_def)
  with lo hi show ?thesis by simp
qed

lemma round64_at_least:
  assumes "0 < d" "rnd d = d" "d \<le> x"
  shows "round64 x = Infty True \<or> (\<exists>w. round64 x = Num w \<and> d \<le> w)"
proof -
  from rnd_mono [OF assms(3)] assms(2) have "d \<le> rnd x" by simp
  moreover from assms have "0 < x" by simp
  ultimately show ?thesis using round64_cases [of x] by auto
qed

lemma round64_int:
  assumes "\<bar>n\<bar> < 2 ^ 53"
  shows "round64 (of_int n) = Num (of_int n)"
proof (rule round64_exact)
  show "rnd (of_int n) = of_int n" using assms by (rule rnd_int)
  from assms have "\<bar>real_of_int n\<bar> < 2 ^ 53"
    by (metis of_int_abs of_int_less_iff of_int_numeral of_int_power)
  also have "(2::real) ^ 53 \<le> 2 ^ 1024" by (intro power_increasing) simp_all
  finally show "\<bar>real_of_int n\<bar> < 2 ^ 1024" .
qed

lemma round64_0 [simp]: "round64 0 = Num 0"
  using round64_int [of 0] by simp

lemma round64_1 [simp]: "round64 1 = Num 1"
  using round64_int [of 1] by simp

lemma round64_numeral:
  "numeral n < (2 ^ 53 :: int) \<Longrightarrow> round64 (numeral n) = Num (numeral n)"
  using round64_int [of "numeral n"] by simp

lemma round64_neg_numeral:
  "numeral n < (2 ^ 53 :: int) \<Longrightarrow> round64 (- numeral n) = Num (- numeral n)"
  using round64_int [of "- numeral n"] by simp

lemma round64_eval:
  assumes "2 powi e \<le> \<bar>x\<bar>" "\<bar>x\<bar> < 2 powi (e + 1)" "- 1022 \<le> e" "e \<le> 1022"
  shows "round64 x = Num (of_int (roundEven (x / 2 powi (e - 52))) * 2 powi (e - 52))"
proof -
  have e: "expo x = e" using assms(1-3) by (rule expo_eqI)
  have "0 < (2::real) powi e" by simp
  with assms(1) have pos: "0 < \<bar>x\<bar>" by linarith
  then have "rnd \<bar>x\<bar> \<le> 2 powi (expo \<bar>x\<bar> + 1)" by (rule rnd_upper)
  also have "\<dots> \<le> 2 powi 1023" using assms(4) e by (intro power_int_increasing) simp_all
  also have "\<dots> < 2 ^ 1024" by simp
  finally have "\<bar>rnd x\<bar> < 2 ^ 1024" by (simp add: rnd_abs)
  then have "round64 x = Num (rnd x)" by (simp add: round64_def)
  with rnd_eval [OF assms(1-3)] show ?thesis by simp
qed

lemma round64_m1 [simp]: "round64 (- 1) = Num (- 1)"
  using round64_int [of "- 1"] by simp

lemma rnd_half: "rnd (1 / 2) = 1 / 2" "rnd (- (1 / 2)) = - (1 / 2)" "rnd (3 / 2) = 3 / 2"
  using rnd_exact [of "1 / 2" 1 "- 1"] rnd_exact [of "- (1 / 2)" "- 1" "- 1"]
    rnd_exact [of "3 / 2" 3 "- 1"]
  by simp_all

lemma round64_half:
  "round64 (1 / 2) = Num (1 / 2)" "round64 (- (1 / 2)) = Num (- (1 / 2))"
  "round64 (3 / 2) = Num (3 / 2)"
  by (simp_all add: round64_exact rnd_half)

lemma rnd_small_ints:
  "rnd 1 = 1" "rnd (- 1) = - 1" "rnd 2 = 2" "rnd 50 = 50" "rnd 100 = 100" "rnd 150 = 150"
  using rnd_int [of 1] rnd_int [of "- 1"] rnd_int [of 2] rnd_int [of 50] rnd_int [of 100]
    rnd_int [of 150]
  by simp_all

text \<open>
  The largest double below 1 is \<open>1 - 2^-53\<close>: it is a double, and every double below 1 is
  at most that.
\<close>

lemma largest_below_one_double: "round64 (1 - 1 / 2 ^ 53) = Num (1 - 1 / 2 ^ 53)"
  by (subst round64_eval [where e = "- 1"]) (simp_all add: roundEven_def)

lemma largest_below_one:
  assumes "round64 x = Num x" "x < 1"
  shows "x \<le> 1 - 1 / 2 ^ 53"
proof (cases "x \<le> 1 / 2")
  case True
  have "(1 :: real) / 2 \<le> 1 - 1 / 2 ^ 53" by simp
  with True show ?thesis by linarith
next
  case False
  then have x: "1 / 2 < x" by simp
  from assms(1) have r: "rnd x = x" by (simp add: round64_def split: if_splits)
  have e: "expo x = - 1"
    by (rule expo_eqI) (use x assms(2) in \<open>simp_all add: power_int_minus\<close>)
  have q: "quantum x = 1 / 2 ^ 53" by (simp add: quantum_def e power_int_minus divide_simps)
  define m where "m = roundEven (x / quantum x)"
  from r x have xm: "x = of_int m / 2 ^ 53" by (simp add: rnd_def m_def q)
  with assms(2) have "real_of_int m < 2 ^ 53" by (simp add: divide_simps)
  then have "m < 2 ^ 53" by (metis of_int_less_iff of_int_numeral of_int_power)
  then have "m \<le> 2 ^ 53 - 1" by simp
  then have "real_of_int m \<le> 2 ^ 53 - 1" by (metis of_int_le_iff of_int_numeral of_int_power of_int_diff of_int_1)
  then show ?thesis by (simp add: xm divide_simps)
qed

text \<open>
  The doubles that the literals \<open>0.9999\<close> and \<open>1.1\<close> denote.
\<close>

lemma literal_9999: "literal (9999 / 10000) = Num (4503149267407759 / 4503599627370496)"
  unfolding literal_def by (subst round64_eval [where e = "- 1"]) (simp_all add: roundEven_def)

lemma literal_11_10: "literal (11 / 10) = Num (2476979795053773 / 2251799813685248)"
  unfolding literal_def by (subst round64_eval [where e = 0]) (simp_all add: roundEven_def)

subsection \<open>The loop body, case by case\<close>

lemmas run_defs =
  retryMini_def readOptions_def field_def noOptions_def attempt_def computeWait_def rawWait_def
  jittered_def randomFactor_def subN_def sleep_def coalesce_def defaultShouldRetry_def
  defaultOnRetry_def failing_def succeeding_def mockOnce_def failingWith_def randomMin_def
  randomMax_def hookReturning_def hookThrowing_def backoffOptions_def jitterOptions_def
  round64_numeral round64_neg_numeral

lemma taskCalls_append: "taskCalls (xs @ ys) = taskCalls xs @ taskCalls ys"
  by (induction xs rule: taskCalls.induct) simp_all

lemma taskCalls_sleep: "taskCalls (sleep w) = []"
  by (simp add: sleep_def)

lemma computeWait_draws:
  assumes "computeWait random c k s = (w, draws, s')"
  shows "draws = [] \<or> (\<exists>r. draws = [RandomCall r])"
  using assms by (auto simp: computeWait_def Let_def split: if_splits prod.splits)

lemma attempt_cases [case_names ret srThrow brk orThrow nxt]:
  fixes task :: "('s, 'o) task"
  obtains
    v s1 where "task k s = (Returns v, s1)"
      "attempt random task c k le s = (Return v, le, [TaskCall k (Returns v)], s1)"
  | e s1 h s2 where "task k s = (Throws e, s1)" "c_shouldRetry c e k s1 = (Throws h, s2)"
      "attempt random task c k le s =
         (Throw h, e, [TaskCall k (Throws e), ShouldRetryCall e k (Throws h)], s2)"
  | e s1 r s2 where "task k s = (Throws e, s1)" "c_shouldRetry c e k s1 = (Returns r, s2)"
      "\<not> truthy (coalesce r (JBool True)) \<or> real k = c_maxRetries c"
      "attempt random task c k le s =
         (Break, e, [TaskCall k (Throws e), ShouldRetryCall e k (Returns r)], s2)"
  | e s1 r s2 h s3 where "task k s = (Throws e, s1)" "c_shouldRetry c e k s1 = (Returns r, s2)"
      "truthy (coalesce r (JBool True))" "real k \<noteq> c_maxRetries c"
      "c_onRetry c e k s2 = (Throws h, s3)"
      "attempt random task c k le s =
         (Throw h, e, [TaskCall k (Throws e), ShouldRetryCall e k (Returns r),
                       OnRetryCall e k (Throws h)], s3)"
  | e s1 r s2 u s3 w draws s4 where "task k s = (Throws e, s1)"
      "c_shouldRetry c e k s1 = (Returns r, s2)"
      "truthy (coalesce r (JBool True))" "real k \<noteq> c_maxRetries c"
      "c_onRetry c e k s2 = (Returns u, s3)"
      "computeWait random c k s3 = (w, draws, s4)"
      "attempt random task c k le s =
         (Next, e, [TaskCall k (Throws e), ShouldRetryCall e k (Returns r),
                    OnRetryCall e k (Returns u)] @ draws @ sleep w, s4)"
proof (cases "task k s")
  case (Pair t s1)
  show ?thesis
  proof (cases t)
    case (Returns v)
    with Pair that(1) show ?thesis by (simp add: attempt_def)
  next
    case (Throws e)
    show ?thesis
    proof (cases "c_shouldRetry c e k s1")
      case sr: (Pair t2 s2)
      show ?thesis
      proof (cases t2)
        case h: (Throws h)
        with Pair Throws sr that(2) show ?thesis by (simp add: attempt_def)
      next
        case r: (Returns r)
        show ?thesis
        proof (cases "\<not> truthy (coalesce r (JBool True)) \<or> real k = c_maxRetries c")
          case True
          with Pair Throws sr r that(3) [of e s1 r s2] show ?thesis
            by (simp add: attempt_def)
        next
          case False
          show ?thesis
          proof (cases "c_onRetry c e k s2")
            case orr: (Pair t3 s3)
            show ?thesis
            proof (cases t3)
              case (Throws h)
              with Pair \<open>t = Throws e\<close> sr r False orr that(4) [of e s1 r s2 h s3]
              show ?thesis by (simp add: attempt_def)
            next
              case u: (Returns u)
              obtain w draws s4 where cw: "computeWait random c k s3 = (w, draws, s4)"
                by (cases "computeWait random c k s3") auto
              with Pair Throws sr r False orr u that(5) [of e s1 r s2 u s3 w draws s4]
              show ?thesis by (simp add: attempt_def)
            qed
          qed
        qed
      qed
    qed
  qed
qed

lemma loop_exit: "\<not> real k \<le> c_maxRetries c \<Longrightarrow> loop random task c k le s = (Throws le, [], s)"
  by (simp add: loop.simps)

lemma loop_Return:
  "real k \<le> c_maxRetries c \<Longrightarrow> attempt random task c k le s = (Return v, le', evs, s')
   \<Longrightarrow> loop random task c k le s = (Returns v, evs, s')"
  by (subst loop.simps) simp

lemma loop_Throw:
  "real k \<le> c_maxRetries c \<Longrightarrow> attempt random task c k le s = (Throw h, le', evs, s')
   \<Longrightarrow> loop random task c k le s = (Throws h, evs, s')"
  by (subst loop.simps) simp

lemma loop_Break:
  "real k \<le> c_maxRetries c \<Longrightarrow> attempt random task c k le s = (Break, le', evs, s')
   \<Longrightarrow> loop random task c k le s = (Throws le', evs, s')"
  by (subst loop.simps) simp

lemma loop_Next:
  "real k \<le> c_maxRetries c \<Longrightarrow> attempt random task c k le s = (Next, le', evs, s')
   \<Longrightarrow> loop random task c (Suc k) le' s' = (out, evs', s'')
   \<Longrightarrow> loop random task c k le s = (out, evs @ evs', s'')"
  by (subst loop.simps) simp

lemma loop_induct [case_names step]:
  fixes random :: "'s \<Rightarrow> number \<times> 's" and task :: "('s, 'o) task" and c :: "('s, 'o) settings"
  assumes step: "\<And>k le s. (\<And>le' evs s'. real k \<le> c_maxRetries c \<Longrightarrow>
              attempt random task c k le s = (Next, le', evs, s') \<Longrightarrow> P (Suc k) le' s')
            \<Longrightarrow> P k le s"
  shows "P k le s"
proof -
  have "random' = random \<Longrightarrow> task' = task \<Longrightarrow> c' = c \<Longrightarrow> P k le s" for random' task' c'
  proof (induct random' task' c' k le s rule: loop.induct)
    case (1 random' task' c' k le s)
    show ?case
    proof (rule step)
      fix le' evs s'
      assume le: "real k \<le> c_maxRetries c"
        and att: "attempt random task c k le s = (Next, le', evs, s')"
      from le att "1.prems" have le': "real k \<le> c_maxRetries c'"
        and att': "(Next, le', evs, s') = attempt random' task' c' k le s" by simp_all
      show "P (Suc k) le' s'"
        by (rule "1.hyps" [OF le' att' refl refl refl "1.prems"])
    qed
  qed
  then show ?thesis by simp
qed

lemma attempt_events_index:
  assumes "attempt random task c k le s = (fl, le', evs, s')" "ev \<in> set evs" "attemptOf ev = Some i"
  shows "i = k"
proof (cases rule: attempt_cases [where random = random and task = task and c = c and k = k and le = le and s = s])
  case (nxt e s1 r s2 u s3 w draws s4)
  from computeWait_draws [OF nxt(6)] have "\<forall>ev \<in> set draws. attemptOf ev = None" by auto
  then show ?thesis using assms nxt(7) by (auto simp: sleep_def split: if_splits)
qed (use assms in auto)

lemma loop_events_index:
  "loop random task c j le s = (out, evs, s') \<Longrightarrow> ev \<in> set evs \<Longrightarrow> attemptOf ev = Some i
   \<Longrightarrow> j \<le> i"
proof (induction j le s arbitrary: out evs s' rule: loop_induct [where random = random and task = task and c = c])
  case (step k le s)
  show ?case
  proof (cases "real k \<le> c_maxRetries c")
    case False
    with step.prems show ?thesis by (simp add: loop_exit)
  next
    case True
    obtain fl le' bevs sb where att: "attempt random task c k le s = (fl, le', bevs, sb)"
      by (cases "attempt random task c k le s") auto
    show ?thesis
    proof (cases fl)
      case (Return v)
      with loop_Return [OF True] att step.prems attempt_events_index [OF att] show ?thesis
        by fastforce
    next
      case (Throw h)
      with loop_Throw [OF True] att step.prems attempt_events_index [OF att] show ?thesis
        by fastforce
    next
      case Break
      with loop_Break [OF True] att step.prems attempt_events_index [OF att] show ?thesis
        by fastforce
    next
      case Next
      obtain out2 evs2 s2 where rest: "loop random task c (Suc k) le' sb = (out2, evs2, s2)"
        by (cases "loop random task c (Suc k) le' sb") auto
      from loop_Next [OF True att [unfolded Next] rest] step.prems(1)
      have evs: "evs = bevs @ evs2" by simp
      show ?thesis
      proof (cases "ev \<in> set bevs")
        case True
        with attempt_events_index [OF att] step.prems(3) show ?thesis by simp
      next
        case False
        with evs step.prems(2) have "ev \<in> set evs2" by simp
        from step.IH [OF True att [unfolded Next] rest this step.prems(3)]
        show ?thesis by simp
      qed
    qed
  qed
qed

lemma loop_cases [case_names exit ret srThrow brk orThrow nxt]:
  fixes task :: "('s, 'o) task"
  obtains
    "\<not> real k \<le> c_maxRetries c" "loop random task c k le s = (Throws le, [], s)"
  | v s1 where "real k \<le> c_maxRetries c" "task k s = (Returns v, s1)"
      "loop random task c k le s = (Returns v, [TaskCall k (Returns v)], s1)"
  | e s1 h s2 where "real k \<le> c_maxRetries c" "task k s = (Throws e, s1)"
      "c_shouldRetry c e k s1 = (Throws h, s2)"
      "loop random task c k le s =
         (Throws h, [TaskCall k (Throws e), ShouldRetryCall e k (Throws h)], s2)"
  | e s1 r s2 where "real k \<le> c_maxRetries c" "task k s = (Throws e, s1)"
      "c_shouldRetry c e k s1 = (Returns r, s2)"
      "\<not> truthy (coalesce r (JBool True)) \<or> real k = c_maxRetries c"
      "loop random task c k le s =
         (Throws e, [TaskCall k (Throws e), ShouldRetryCall e k (Returns r)], s2)"
  | e s1 r s2 h s3 where "real k \<le> c_maxRetries c" "task k s = (Throws e, s1)"
      "c_shouldRetry c e k s1 = (Returns r, s2)"
      "truthy (coalesce r (JBool True))" "real k \<noteq> c_maxRetries c"
      "c_onRetry c e k s2 = (Throws h, s3)"
      "loop random task c k le s =
         (Throws h, [TaskCall k (Throws e), ShouldRetryCall e k (Returns r),
                     OnRetryCall e k (Throws h)], s3)"
  | e s1 r s2 u s3 w draws s4 out evs' s' where "real k \<le> c_maxRetries c"
      "task k s = (Throws e, s1)"
      "c_shouldRetry c e k s1 = (Returns r, s2)"
      "truthy (coalesce r (JBool True))" "real k \<noteq> c_maxRetries c"
      "c_onRetry c e k s2 = (Returns u, s3)"
      "computeWait random c k s3 = (w, draws, s4)"
      "attempt random task c k le s =
         (Next, e, [TaskCall k (Throws e), ShouldRetryCall e k (Returns r),
                    OnRetryCall e k (Returns u)] @ draws @ sleep w, s4)"
      "loop random task c (Suc k) e s4 = (out, evs', s')"
      "loop random task c k le s =
         (out, [TaskCall k (Throws e), ShouldRetryCall e k (Returns r),
                OnRetryCall e k (Returns u)] @ draws @ sleep w @ evs', s')"
proof (cases "real k \<le> c_maxRetries c")
  case False
  with that(1) show ?thesis by (simp add: loop_exit)
next
  case True
  show ?thesis
  proof (cases rule: attempt_cases [where random = random and task = task and c = c and k = k and le = le and s = s])
    case (ret v s1)
    with that(2) True loop_Return [OF True ret(2)] show ?thesis by simp
  next
    case (srThrow e s1 h s2)
    with that(3) True loop_Throw [OF True srThrow(3)] show ?thesis by simp
  next
    case (brk e s1 r s2)
    with that(4) True loop_Break [OF True brk(4)] show ?thesis by simp
  next
    case (orThrow e s1 r s2 h s3)
    with that(5) True loop_Throw [OF True orThrow(6)] show ?thesis by simp
  next
    case (nxt e s1 r s2 u s3 w draws s4)
    obtain out evs' s' where rest: "loop random task c (Suc k) e s4 = (out, evs', s')"
      by (cases "loop random task c (Suc k) e s4") auto
    from loop_Next [OF True nxt(7) rest]
    have "loop random task c k le s =
         (out, [TaskCall k (Throws e), ShouldRetryCall e k (Returns r),
                OnRetryCall e k (Returns u)] @ draws @ sleep w @ evs', s')" by simp
    with that(6) [OF True nxt(1-7) rest] show ?thesis by blast
  qed
qed

lemma draws_index:
  assumes "computeWait random c k s = (w, draws, s')" "ev \<in> set draws"
  shows "attemptOf ev = None"
  using computeWait_draws [OF assms(1)] assms(2) by auto

lemma sleep_index: "ev \<in> set (sleep w) \<Longrightarrow> attemptOf ev = None"
  by (auto simp: sleep_def split: if_splits)

lemma taskCalls_draws:
  assumes "computeWait random c k s = (w, draws, s')"
  shows "taskCalls draws = []"
  using computeWait_draws [OF assms(1)] by auto

lemma loop_stops:
  fixes task :: "('s, 'o) task"
  shows "loop random task c j le s = (out, evs, s') \<Longrightarrow>
    TaskCall k (Throws e) \<in> set evs \<Longrightarrow>
    ShouldRetryCall e k (Returns r) \<in> set evs \<Longrightarrow>
    \<not> truthy (coalesce r (JBool True)) \<or> real k = c_maxRetries c \<Longrightarrow>
    out = Throws e \<and> map fst (taskCalls evs) = [j..<Suc k] \<and>
    (\<exists>pre. evs = pre @ [TaskCall k (Throws e), ShouldRetryCall e k (Returns r)]) \<and>
    (\<forall>e' r'. OnRetryCall e' k r' \<notin> set evs)"
proof (induction j le s arbitrary: out evs s' rule: loop_induct [where random = random and task = task and c = c])
  case (step j le s)
  note run = step.prems(1) and tc = step.prems(2) and sr = step.prems(3) and stop = step.prems(4)
  show ?case
  proof (cases rule: loop_cases [where random = random and task = task and c = c and k = j and le = le and s = s])
    case exit
    with run tc show ?thesis by simp
  next
    case (ret v s1)
    with run tc show ?thesis by auto
  next
    case (srThrow e1 s1 h s2)
    with run sr show ?thesis by auto
  next
    case (brk e1 s1 r1 s2)
    with run tc sr show ?thesis by auto
  next
    case (orThrow e1 s1 r1 s2 h s3)
    with run tc sr stop show ?thesis by auto
  next
    case (nxt e1 s1 r1 s2 u s3 w draws s4 out2 evs2 s5)
    let ?body = "[TaskCall j (Throws e1), ShouldRetryCall e1 j (Returns r1),
                  OnRetryCall e1 j (Returns u)]"
    from run nxt(10) have out: "out = out2" and evs: "evs = ?body @ draws @ sleep w @ evs2"
      by simp_all
    have noidx: "ev \<in> set (draws @ sleep w) \<Longrightarrow> attemptOf ev = None" for ev
      using draws_index [OF nxt(7)] sleep_index by auto
    have later: "ev \<in> set evs2 \<Longrightarrow> attemptOf ev = Some i \<Longrightarrow> Suc j \<le> i" for ev i
      using loop_events_index [OF nxt(9)] by blast
    have "k \<noteq> j"
    proof
      assume "k = j"
      with sr evs noidx [of "ShouldRetryCall e k (Returns r)"]
        later [of "ShouldRetryCall e k (Returns r)" k]
      have "r = r1" by auto
      with stop nxt(4,5) \<open>k = j\<close> show False by simp
    qed
    with tc evs noidx [of "TaskCall k (Throws e)"] have tc2: "TaskCall k (Throws e) \<in> set evs2"
      by auto
    from \<open>k \<noteq> j\<close> sr evs noidx [of "ShouldRetryCall e k (Returns r)"]
    have sr2: "ShouldRetryCall e k (Returns r) \<in> set evs2" by auto
    from step.IH [OF nxt(1) nxt(8) nxt(9) tc2 sr2 stop]
    have ih: "out2 = Throws e" "map fst (taskCalls evs2) = [Suc j..<Suc k]"
      "\<exists>pre. evs2 = pre @ [TaskCall k (Throws e), ShouldRetryCall e k (Returns r)]"
      "\<forall>e' r'. OnRetryCall e' k r' \<notin> set evs2" by simp_all
    from later [OF tc2] have "j < Suc k" by simp
    with ih(2) evs taskCalls_draws [OF nxt(7)]
    have calls: "map fst (taskCalls evs) = [j..<Suc k]"
      by (simp add: taskCalls_append taskCalls_sleep upt_conv_Cons)
    from ih(3) obtain pre where "evs2 = pre @ [TaskCall k (Throws e), ShouldRetryCall e k (Returns r)]"
      by blast
    with evs have "evs = (?body @ draws @ sleep w @ pre) @ [TaskCall k (Throws e), ShouldRetryCall e k (Returns r)]"
      by simp
    then have pre: "\<exists>pre. evs = pre @ [TaskCall k (Throws e), ShouldRetryCall e k (Returns r)]"
      by blast
    have "OnRetryCall e' k r' \<notin> set evs" for e' r'
      using ih(4) evs \<open>k \<noteq> j\<close> noidx [of "OnRetryCall e' k r'"] by auto
    with out ih(1) calls pre show ?thesis by blast
  qed
qed

lemma loop_always_failing:
  fixes task :: "('s, 'o) task"
  shows "\<forall>k s. \<exists>e s1. task k s = (Throws e, s1) \<Longrightarrow>
    \<forall>e k s. \<exists>s1. c_shouldRetry c e k s = (Returns (JBool True), s1) \<Longrightarrow>
    \<forall>e k s. \<exists>u s1. c_onRetry c e k s = (Returns u, s1) \<Longrightarrow>
    c_maxRetries c = real n \<Longrightarrow> j \<le> Suc n \<Longrightarrow>
    map fst (taskCalls (fst (snd (loop random task c j le s)))) = [j..<Suc n]"
proof (induction random task c j le s rule: loop.induct)
  case (1 random task c k le s)
  note fails = "1.prems"(1) and sr = "1.prems"(2) and orr = "1.prems"(3) and mr = "1.prems"(4)
  show ?case
  proof (cases "real k \<le> c_maxRetries c")
    case False
    with "1.prems"(5) mr have "k = Suc n" by simp
    with False show ?thesis by (simp add: loop_exit)
  next
    case True
    with mr have kn: "k \<le> n" by simp
    show ?thesis
    proof (cases rule: attempt_cases [where random = random and task = task and c = c and k = k and le = le and s = s])
      case (ret v s1)
      with fails show ?thesis by (metis completion.distinct(1) prod.inject)
    next
      case (srThrow e s1 h s2)
      with sr show ?thesis by (metis completion.distinct(1) prod.inject)
    next
      case (brk e s1 r s2)
      from sr brk(2) have "r = JBool True" by (metis completion.inject(1) prod.inject)
      with brk(3) mr have "k = n" by (simp add: coalesce_def)
      with loop_Break [OF True brk(4)] show ?thesis by simp
    next
      case (orThrow e s1 r s2 h s3)
      with orr show ?thesis by (metis completion.distinct(1) prod.inject)
    next
      case (nxt e s1 r s2 u s3 w draws s4)
      from nxt(4) mr kn have lt: "Suc k \<le> Suc n" by simp
      obtain out evs' s'' where rest: "loop random task c (Suc k) e s4 = (out, evs', s'')"
        by (cases "loop random task c (Suc k) e s4") auto
      from "1.IH" [OF True nxt(7) [symmetric] refl refl refl fails sr orr mr lt] rest
      have ih: "map fst (taskCalls evs') = [Suc k..<Suc n]" by simp
      from computeWait_draws [OF nxt(6)] have "taskCalls draws = []" by auto
      with loop_Next [OF True nxt(7) rest] ih kn show ?thesis
        by (simp add: taskCalls_append taskCalls_sleep upt_conv_Cons)
    qed
  qed
qed

lemma loop_throws_lastError:
  fixes task :: "('s, 'o) task"
  shows "loop random task c j le s = (Throws x, evs, s') \<Longrightarrow>
    \<forall>ev \<in> set evs. \<not> hookThrew ev \<Longrightarrow>
    (if taskCalls evs = [] then x = le else snd (last (taskCalls evs)) = Throws x)"
proof (induction j le s arbitrary: evs s' rule: loop_induct [where random = random and task = task and c = c])
  case (step j le s)
  note run = step.prems(1) and nohook = step.prems(2)
  show ?case
  proof (cases rule: loop_cases [where random = random and task = task and c = c and k = j and le = le and s = s])
    case exit
    with run show ?thesis by simp
  next
    case (ret v s1)
    with run show ?thesis by simp
  next
    case (srThrow e1 s1 h s2)
    with run nohook show ?thesis by auto
  next
    case (brk e1 s1 r1 s2)
    with run show ?thesis by auto
  next
    case (orThrow e1 s1 r1 s2 h s3)
    with run nohook show ?thesis by auto
  next
    case (nxt e1 s1 r1 s2 u s3 w draws s4 out2 evs2 s5)
    from run nxt(10) have out: "out2 = Throws x"
      and evs: "evs = [TaskCall j (Throws e1), ShouldRetryCall e1 j (Returns r1),
                  OnRetryCall e1 j (Returns u)] @ draws @ sleep w @ evs2"
      by simp_all
    from nohook evs have "\<forall>ev \<in> set evs2. \<not> hookThrew ev" by simp
    from step.IH [OF nxt(1) nxt(8) nxt(9) [unfolded out] this]
    have ih: "if taskCalls evs2 = [] then x = e1 else snd (last (taskCalls evs2)) = Throws x" .
    from evs taskCalls_draws [OF nxt(7)]
    have "taskCalls evs = (j, Throws e1) # taskCalls evs2"
      by (simp add: taskCalls_append taskCalls_sleep)
    with ih show ?thesis by (simp split: if_splits)
  qed
qed

lemma loop_first_call:
  fixes task :: "('s, 'o) task"
  assumes "real j \<le> c_maxRetries c"
  shows "taskCalls (fst (snd (loop random task c j le s))) \<noteq> []"
  by (cases rule: loop_cases [where random = random and task = task and c = c and k = j and le = le and s = s])
     (use assms in \<open>simp_all add: taskCalls_append\<close>)

lemma loop_hook_throw:
  fixes task :: "('s, 'o) task"
  shows "loop random task c j le s = (out, evs, s') \<Longrightarrow>
    ev = ShouldRetryCall e k (Throws h) \<or> ev = OnRetryCall e k (Throws h) \<Longrightarrow>
    ev \<in> set evs \<Longrightarrow>
    out = Throws h \<and> last evs = ev \<and> map fst (taskCalls evs) = [j..<Suc k] \<and>
    TaskCall k (Throws e) \<in> set evs"
proof (induction j le s arbitrary: out evs s' rule: loop_induct [where random = random and task = task and c = c])
  case (step j le s)
  note run = step.prems(1) and ev = step.prems(2) and mem = step.prems(3)
  show ?case
  proof (cases rule: loop_cases [where random = random and task = task and c = c and k = j and le = le and s = s])
    case exit
    with run mem show ?thesis by simp
  next
    case (ret v s1)
    with run ev mem show ?thesis by auto
  next
    case (srThrow e1 s1 h s2)
    with run ev mem show ?thesis by auto
  next
    case (brk e1 s1 r1 s2)
    with run ev mem show ?thesis by auto
  next
    case (orThrow e1 s1 r1 s2 h s3)
    with run ev mem show ?thesis by auto
  next
    case (nxt e1 s1 r1 s2 u s3 w draws s4 out2 evs2 s5)
    from run nxt(10) have out: "out = out2"
      and evs: "evs = [TaskCall j (Throws e1), ShouldRetryCall e1 j (Returns r1),
                  OnRetryCall e1 j (Returns u)] @ draws @ sleep w @ evs2"
      by simp_all
    have noidx: "ev' \<in> set (draws @ sleep w) \<Longrightarrow> attemptOf ev' = None" for ev'
      using draws_index [OF nxt(7)] sleep_index by auto
    from ev have idx: "attemptOf ev = Some k" by auto
    from ev mem evs noidx [of ev] idx have mem2: "ev \<in> set evs2" by auto
    from step.IH [OF nxt(1) nxt(8) nxt(9) ev mem2]
    have ih: "out2 = Throws h" "last evs2 = ev" "map fst (taskCalls evs2) = [Suc j..<Suc k]"
      "TaskCall k (Throws e) \<in> set evs2" by simp_all
    from mem2 have ne: "evs2 \<noteq> []" by auto
    from loop_events_index [OF nxt(9) mem2 idx] have "j < Suc k" by simp
    with ih(3) evs taskCalls_draws [OF nxt(7)]
    have calls: "map fst (taskCalls evs) = [j..<Suc k]"
      by (simp add: taskCalls_append taskCalls_sleep upt_conv_Cons)
    from evs ne ih(2) have "last evs = ev" by simp
    with out ih(1,4) calls evs show ?thesis by simp
  qed
qed

lemma loop_timers_positive:
  fixes task :: "('s, 'o) task"
  shows "loop random task c j le s = (out, evs, s') \<Longrightarrow> SetTimeout w \<in> set evs \<Longrightarrow> gtZero w"
proof (induction j le s arbitrary: out evs s' rule: loop_induct [where random = random and task = task and c = c])
  case (step j le s)
  note run = step.prems(1) and mem = step.prems(2)
  show ?case
  proof (cases rule: loop_cases [where random = random and task = task and c = c and k = j and le = le and s = s])
    case (nxt e1 s1 r1 s2 u s3 w1 draws s4 out2 evs2 s5)
    from run nxt(10) have 
      evs: "evs = [TaskCall j (Throws e1), ShouldRetryCall e1 j (Returns r1),
                  OnRetryCall e1 j (Returns u)] @ draws @ sleep w1 @ evs2"
      by simp_all
    from computeWait_draws [OF nxt(7)] have "SetTimeout w \<notin> set draws" by auto
    with mem evs have "SetTimeout w \<in> set (sleep w1 :: 'o event list) \<or> SetTimeout w \<in> set evs2" by auto
    then show ?thesis
    proof
      assume "SetTimeout w \<in> set (sleep w1 :: 'o event list)"
      then show ?thesis by (simp add: sleep_def split: if_splits)
    next
      assume "SetTimeout w \<in> set evs2"
      from step.IH [OF nxt(1) nxt(8) nxt(9) this] show ?thesis .
    qed
  qed (use run mem in auto)
qed

subsection \<open>The origin of a rejection\<close>

lemma hookThrew_cases:
  assumes "hookThrew ev"
  obtains e k h where "ev = ShouldRetryCall e k (Throws h)"
  | e k h where "ev = OnRetryCall e k (Throws h)"
  using assms by (cases ev rule: hookThrew.cases) auto

text \<open>
  Where a rejection comes from, for every run: there was no attempt at all and the value is
  \<open>undefined\<close>; or it is what the last call of the task threw; or it is what a hook threw,
  in the last event of the trace.
\<close>

lemma rejection_origin:
  fixes task :: "('s, 'o) task"
  assumes run: "retryMini random task opts s = (Throws x, evs, s')"
  shows "(evs = [] \<and> x = JUndefined \<and> c_maxRetries (readOptions opts) < 0)
       \<or> (taskCalls evs \<noteq> [] \<and> snd (last (taskCalls evs)) = Throws x)
       \<or> (\<exists>e k. last evs = ShouldRetryCall e k (Throws x) \<or> last evs = OnRetryCall e k (Throws x))"
proof (cases "\<exists>ev \<in> set evs. hookThrew ev")
  case True
  then obtain ev where mem: "ev \<in> set evs" and "hookThrew ev" by blast
  then obtain e k h where ev: "ev = ShouldRetryCall e k (Throws h) \<or> ev = OnRetryCall e k (Throws h)"
    by (auto elim: hookThrew_cases)
  from loop_hook_throw [OF run [unfolded retryMini_def] ev mem]
  have "x = h" "last evs = ev" by simp_all
  with ev show ?thesis by blast
next
  case False
  then have nohook: "\<forall>ev \<in> set evs. \<not> hookThrew ev" by blast
  show ?thesis
  proof (cases "real 0 \<le> c_maxRetries (readOptions opts)")
    case True
    from loop_first_call [OF True, of random task JUndefined s] run
    have "taskCalls evs \<noteq> []" by (simp add: retryMini_def)
    with loop_throws_lastError [OF run [unfolded retryMini_def] nohook] show ?thesis by simp
  next
    case False
    with loop_exit [OF False, of random task JUndefined s] run show ?thesis
      by (simp add: retryMini_def)
  qed
qed

subsection \<open>Timers and the wait time\<close>

lemma timers_append: "timers (xs @ ys) = timers xs @ timers ys"
  by (induction xs rule: timers.induct) simp_all

lemma timers_draws:
  assumes "computeWait random c k s = (w, draws, s')"
  shows "timers draws = []"
  using computeWait_draws [OF assms(1)] by auto

lemma timers_sleep: "timers (sleep w) = (if gtZero w then [w] else [])"
  by (simp add: sleep_def)

lemma attempt_Next:
  fixes task :: "('s, 'o) task"
  assumes "attempt random task c k le s = (Next, le', evs, s')"
  obtains e s1 r s2 u s3 w draws where
    "task k s = (Throws e, s1)" "c_shouldRetry c e k s1 = (Returns r, s2)"
    "truthy (coalesce r (JBool True))" "real k \<noteq> c_maxRetries c"
    "c_onRetry c e k s2 = (Returns u, s3)" "computeWait random c k s3 = (w, draws, s')"
    "le' = e"
    "evs = [TaskCall k (Throws e), ShouldRetryCall e k (Returns r),
            OnRetryCall e k (Returns u)] @ draws @ sleep w"
  by (cases rule: attempt_cases [where random = random and task = task and c = c and k = k and le = le and s = s])
     (use assms in auto)

lemma computeWait_no_jitter:
  "\<not> gtZero (c_jitter c) \<Longrightarrow> computeWait random c k s = (rawWait (c_baseDelay c) (c_backoffFactor c) k, [], s)"
  by (simp add: computeWait_def)

lemma attempt_Next_timers_no_jitter:
  fixes task :: "('s, 'o) task"
  assumes "attempt random task c k le s = (Next, le', evs, s')" "\<not> gtZero (c_jitter c)"
  shows "timers evs = (if gtZero (rawWait (c_baseDelay c) (c_backoffFactor c) k)
                       then [rawWait (c_baseDelay c) (c_backoffFactor c) k] else [])"
proof -
  from assms(1) obtain e r u s3 w draws where
    cw: "computeWait random c k s3 = (w, draws, s')"
    and evs: "evs = [TaskCall k (Throws e), ShouldRetryCall e k (Returns r),
            OnRetryCall e k (Returns u)] @ draws @ sleep w"
    by (rule attempt_Next)
  from cw assms(2) have "w = rawWait (c_baseDelay c) (c_backoffFactor c) k" "draws = []"
    by (simp_all add: computeWait_no_jitter)
  with evs show ?thesis by (simp add: timers_sleep)
qed

text \<open>
  The wait before jitter. At attempt 0 the power is 1. A factor between \<open>-1\<close> and 1 has
  powers of magnitude at most 1, which \<open>Math.max(1, ...)\<close> replaces by 1. The maximum is at
  least 1 or \<open>NaN\<close>, so a positive \<open>baseDelay\<close> is only ever multiplied up, possibly to
  \<open>Infinity\<close>.
\<close>

lemma rawWait_first_attempt: "rawWait (Num 100) bf 0 = Num 100"
  by (simp add: rawWait_def round64_numeral)

lemma powN_Num: "0 < k \<Longrightarrow> powN (Num a) k = round64 (a ^ k)"
  by (cases k) simp_all

lemma powN_not_NaN: "bf \<noteq> NaN \<Longrightarrow> powN bf k \<noteq> NaN"
proof (cases k)
  case 0
  then show ?thesis by simp
next
  case (Suc j)
  assume "bf \<noteq> NaN"
  with Suc round64_cases [of "a ^ Suc j" for a] show ?thesis
    by (cases bf) (auto simp: round64_def)
qed

lemma small_factor_max:
  assumes "- 1 \<le> b" "b \<le> 1"
  shows "mathMax (Num 1) (powN (Num b) k) = Num 1"
proof (cases k)
  case 0
  then show ?thesis by simp
next
  case (Suc j)
  from assms have "\<bar>b\<bar> \<le> 1" by simp
  then have "\<bar>b\<bar> ^ Suc j \<le> 1" by (intro power_le_one) simp_all
  then have "\<bar>b ^ Suc j\<bar> \<le> 1" by (simp only: power_abs)
  then have "- 1 \<le> b ^ Suc j" "b ^ Suc j \<le> 1" by (simp_all add: abs_le_iff)
  from round64_between [OF this] obtain y where
    y: "round64 (b ^ Suc j) = Num y" "y \<le> 1" using rnd_small_ints by auto
  with Suc show ?thesis by (simp add: max_def)
qed

lemma rawWait_small_factor:
  assumes "- 1 \<le> b" "b \<le> 1"
  shows "rawWait bd (Num b) k = rawWait bd (Num 1) k"
  using small_factor_max [OF assms, of k] small_factor_max [of 1 k]
  by (simp add: rawWait_def)

lemma rawWait_at_least:
  assumes d: "0 < d" "round64 d = Num d" and bf: "bf \<noteq> NaN"
  shows "rawWait (Num d) bf k = Infty True \<or> (\<exists>w. rawWait (Num d) bf k = Num w \<and> d \<le> w)"
proof -
  from d(2) have rd: "rnd d = d" by (simp add: round64_def split: if_splits)
  from powN_not_NaN [OF bf, of k]
  consider y where "powN bf k = Num y" | p where "powN bf k = Infty p"
    by (cases "powN bf k") auto
  then have "(\<exists>m. mathMax (Num 1) (powN bf k) = Num m \<and> 1 \<le> m)
      \<or> mathMax (Num 1) (powN bf k) = Infty True"
  proof cases
    case 1
    then show ?thesis by simp
  next
    case 2
    then show ?thesis by (cases p) simp_all
  qed
  then consider m where "mathMax (Num 1) (powN bf k) = Num m" "1 \<le> m"
    | "mathMax (Num 1) (powN bf k) = Infty True"
    by blast
  then show ?thesis
  proof cases
    case 1
    from d(1) 1(2) have "d \<le> d * m" by simp
    from round64_at_least [OF d(1) rd this] 1(1) show ?thesis by (simp add: rawWait_def)
  next
    case 2
    with d(1) show ?thesis by (simp add: rawWait_def)
  qed
qed

lemma rawWait_doubling:
  "rawWait (Num 100) (Num 2) (Suc 0) = Num 200" "rawWait (Num 100) (Num 2) 2 = Num 400"
proof -
  have "powN (Num 2) (Suc 0) = Num 2" by (simp add: round64_numeral)
  then show "rawWait (Num 100) (Num 2) (Suc 0) = Num 200"
    by (simp add: rawWait_def round64_numeral)
  have "powN (Num 2) 2 = round64 (2 ^ 2)" by (rule powN_Num) simp
  then have "powN (Num 2) 2 = Num 4" by (simp add: round64_numeral)
  then show "rawWait (Num 100) (Num 2) 2 = Num 400"
    by (simp add: rawWait_def round64_numeral)
qed

text \<open>
  The products are those of the doubles: with \<open>baseDelay\<close> 100 and \<open>backoffFactor\<close> 1.1 the
  wait after attempt 1 is the double \<open>110.00000000000001\<close>, not 110.
\<close>

lemma rawWait_inexact_factor:
  "rawWait (Num 100) (literal (11 / 10)) 1 = Num (7740561859543041 / 70368744177664)"
proof -
  have "round64 (2476979795053773 / 2251799813685248) = Num (2476979795053773 / 2251799813685248)"
    by (subst round64_eval [where e = 0]) (simp_all add: roundEven_def)
  then have p: "powN (literal (11 / 10)) 1 = Num (2476979795053773 / 2251799813685248)"
    by (simp add: literal_11_10)
  have m: "round64 (100 * (2476979795053773 / 2251799813685248)) = Num (7740561859543041 / 70368744177664)"
    by (subst round64_eval [where e = 6]) (simp_all add: roundEven_def)
  have mx: "mathMax (Num 1) (Num (2476979795053773 / 2251799813685248))
      = Num (2476979795053773 / 2251799813685248)" by (simp add: max_def)
  show ?thesis by (simp only: rawWait_def p mx mulN.simps m)
qed

subsection \<open>Jitter of one half on a wait of 100\<close>





lemma jittered_half_test_draw:
  "jittered (Num 100) (Num (1 / 2)) (literal (9999 / 10000)) = Num 149"
proof -
  have a: "round64 (4503149267407759 / 4503599627370496 * 2) = Num (4503149267407759 / 2251799813685248)"
    by (subst round64_eval [where e = 0]) (simp_all add: roundEven_def)
  have b: "round64 (4503149267407759 / 2251799813685248 + - 1) = Num (2251349453722511 / 2251799813685248)"
    by (subst round64_eval [where e = "- 1"]) (simp_all add: roundEven_def)
  have c: "round64 (2251349453722511 / 2251799813685248 * (1 / 2)) = Num (2251349453722511 / 4503599627370496)"
    by (subst round64_eval [where e = "- 2"]) (simp_all add: roundEven_def)
  have d: "round64 (1 + 2251349453722511 / 4503599627370496) = Num (6754949081093007 / 4503599627370496)"
    by (subst round64_eval [where e = 0]) (simp_all add: roundEven_def)
  have e: "round64 (100 * (6754949081093007 / 4503599627370496)) = Num (659662996200489 / 4398046511104)"
    by (subst round64_eval [where e = 7]) (simp_all add: roundEven_def)
  have "randomFactor (literal (9999 / 10000)) (Num (1 / 2)) = Num (6754949081093007 / 4503599627370496)"
    by (simp only: randomFactor_def subN_def literal_9999 mulN.simps addN.simps negN.simps
        a b c d)
  then show ?thesis
    by (simp only: jittered_def mulN.simps e mathFloor.simps) simp
qed

lemma jitter_test_draw_run:
  "retryMini randomNearMax (mockOnce :: (nat, unit) task) (Some (jitterOptions (Num (1 / 2)))) 0
     = (Returns (JStr ''Done''),
        [TaskCall 0 (Throws (JStr ''Fail'')),
         ShouldRetryCall (JStr ''Fail'') 0 (Returns (JBool True)),
         OnRetryCall (JStr ''Fail'') 0 (Returns JUndefined),
         RandomCall (literal (9999 / 10000)), SetTimeout (Num 149),
         TaskCall 1 (Returns (JStr ''Done''))], 2)"
proof -
  have cw: "computeWait randomNearMax c 0 s = (Num 149, [RandomCall (literal (9999 / 10000))], s)"
    if "c_baseDelay c = Num 100" "c_jitter c = Num (1 / 2)" for c :: "(nat, unit) settings" and s
    using that
    by (simp add: computeWait_def rawWait_first_attempt randomNearMax_def
        jittered_half_test_draw)
  show ?thesis
    by (simp add: retryMini_def loop.simps attempt_def cw sleep_def mockOnce_def coalesce_def
        readOptions_def field_def jitterOptions_def noOptions_def defaultShouldRetry_def
        defaultOnRetry_def)
qed

subsection \<open>Options and values\<close>

lemma readOptions_maxRetries:
  "field maxRetries opts = Some m \<Longrightarrow> c_maxRetries (readOptions opts) = m"
  "field maxRetries opts = None \<Longrightarrow> c_maxRetries (readOptions opts) = 3"
  by (simp_all add: readOptions_def)

lemma readOptions_shouldRetry:
  "field shouldRetry opts = Some f \<Longrightarrow> c_shouldRetry (readOptions opts) = f"
  "field shouldRetry opts = None \<Longrightarrow> c_shouldRetry (readOptions opts) = defaultShouldRetry"
  by (simp_all add: readOptions_def)

lemma readOptions_onRetry:
  "field onRetry opts = Some g \<Longrightarrow> c_onRetry (readOptions opts) = g"
  "field onRetry opts = None \<Longrightarrow> c_onRetry (readOptions opts) = defaultOnRetry"
  by (simp_all add: readOptions_def)



section \<open>The claims\<close>

subsection \<open>How often, and with which argument, the task is called\<close>

text \<open>
  C1, as the code has it. A task that fails on every invocation, a \<open>shouldRetry\<close> that is
  unset or always returns \<open>true\<close>, an \<open>onRetry\<close> that is unset or never throws, and the
  caller's \<open>maxRetries\<close> a non-negative integer \<open>n\<close> (or unset, and then \<open>n = 3\<close>): the task
  is invoked exactly \<open>n + 1\<close> times, with the arguments \<open>0, 1, ..., n\<close> in this order.
\<close>

theorem always_failing_task_calls:
  fixes task :: "('s, 'o) task"
  assumes run: "retryMini random task opts s = (out, evs, s')"
    and fails: "\<forall>k s. \<exists>e s1. task k s = (Throws e, s1)"
    and sr: "field shouldRetry opts = None \<or>
             (\<exists>f. field shouldRetry opts = Some f \<and> (\<forall>e k s. \<exists>s1. f e k s = (Returns (JBool True), s1)))"
    and orr: "field onRetry opts = None \<or>
             (\<exists>g. field onRetry opts = Some g \<and> (\<forall>e k s. \<exists>u s1. g e k s = (Returns u, s1)))"
    and mr: "field maxRetries opts = Some (real n) \<or> (field maxRetries opts = None \<and> n = 3)"
  shows "map fst (taskCalls evs) = [0..<Suc n] \<and> length (taskCalls evs) = n + 1"
proof -
  from mr have mr': "c_maxRetries (readOptions opts) = real n"
    by (auto simp: readOptions_maxRetries)
  from sr have sr': "\<forall>e k s. \<exists>s1. c_shouldRetry (readOptions opts) e k s = (Returns (JBool True), s1)"
    by (auto simp: readOptions_shouldRetry defaultShouldRetry_def)
  from orr have orr': "\<forall>e k s. \<exists>u s1. c_onRetry (readOptions opts) e k s = (Returns u, s1)"
    by (auto simp: readOptions_onRetry defaultOnRetry_def)
  from loop_always_failing [OF fails sr' orr' mr', of 0 random JUndefined s] run
  have calls: "map fst (taskCalls evs) = [0..<Suc n]" by (simp add: retryMini_def)
  have "length (taskCalls evs) = length (map fst (taskCalls evs))" by simp
  also have "\<dots> = n + 1" by (simp only: calls) simp
  finally show ?thesis using calls by simp
qed

text \<open>
  \<open>maxRetries\<close> 0: one call. \<open>maxRetries\<close> 2 with both hooks given: three calls. No options
  at all: four calls, numbered 0 to 3.
\<close>

theorem always_failing_task_calls_witness:
  "map fst (taskCalls (fst (snd (retryMini randomMin (failing :: (unit, unit) task)
       (Some (noOptions \<lparr> maxRetries := Some 0 \<rparr>)) ())))) = [0]
   \<and> map fst (taskCalls (fst (snd (retryMini randomMin (failing :: (unit, unit) task)
       (Some (noOptions \<lparr> maxRetries := Some 2, shouldRetry := Some (hookReturning (JBool True)),
                         onRetry := Some (hookReturning JUndefined) \<rparr>)) ())))) = [0, 1, 2]
   \<and> map fst (taskCalls (fst (snd (retryMini randomMin (failing :: (unit, unit) task) None ()))))
       = [0, 1, 2, 3]"
proof -
  let ?o0 = "Some (noOptions \<lparr> maxRetries := Some 0 \<rparr>) :: (unit, unit) options option"
  let ?o2 = "Some (noOptions \<lparr> maxRetries := Some 2, shouldRetry := Some (hookReturning (JBool True)),
                         onRetry := Some (hookReturning JUndefined) \<rparr>) :: (unit, unit) options option"
  obtain out0 evs0 t0 where
    run0: "retryMini randomMin (failing :: (unit, unit) task) ?o0 () = (out0, evs0, t0)"
    by (cases "retryMini randomMin (failing :: (unit, unit) task) ?o0 ()") auto
  obtain out2 evs2 t2 where
    run2: "retryMini randomMin (failing :: (unit, unit) task) ?o2 () = (out2, evs2, t2)"
    by (cases "retryMini randomMin (failing :: (unit, unit) task) ?o2 ()") auto
  obtain out3 evs3 t3 where
    run3: "retryMini randomMin (failing :: (unit, unit) task) None () = (out3, evs3, t3)"
    by (cases "retryMini randomMin (failing :: (unit, unit) task) None ()") auto
  have "map fst (taskCalls evs0) = [0..<Suc 0]"
    using always_failing_task_calls [OF run0, of 0]
    by (simp add: field_def noOptions_def failing_def)
  then have c0: "map fst (taskCalls evs0) = [0]" by simp
  have "map fst (taskCalls evs2) = [0..<Suc 2]"
    using always_failing_task_calls [OF run2, of 2]
    by (simp add: field_def noOptions_def failing_def hookReturning_def)
  also have "[0..<Suc 2] = [0, 1, 2]" by (simp add: upt_rec)
  finally have c2: "map fst (taskCalls evs2) = [0, 1, 2]" .
  have "map fst (taskCalls evs3) = [0..<Suc 3]"
    using always_failing_task_calls [OF run3, of 3]
    by (simp add: field_def failing_def)
  also have "[0..<Suc 3] = [0, 1, 2, 3]" by (simp add: upt_rec)
  finally have c3: "map fst (taskCalls evs3) = [0, 1, 2, 3]" .
  from c0 c2 c3 run0 run2 run3 show ?thesis by simp
qed

text \<open>
  C1 as stated asks nothing of \<open>onRetry\<close>. With \<open>maxRetries\<close> 3 and an \<open>onRetry\<close> that
  throws, the always failing task is invoked once, not four times.
\<close>

theorem onRetry_throws_counterexample:
  "map fst (taskCalls (fst (snd (retryMini randomMin (failing :: (unit, unit) task)
       (Some (noOptions \<lparr> maxRetries := Some 3, onRetry := Some (hookThrowing (JStr ''hook'')) \<rparr>))
       ())))) = [0]
   \<and> length (taskCalls (fst (snd (retryMini randomMin (failing :: (unit, unit) task)
       (Some (noOptions \<lparr> maxRetries := Some 3, onRetry := Some (hookThrowing (JStr ''hook'')) \<rparr>))
       ())))) \<noteq> 3 + 1"
  by (simp add: run_defs loop.simps)



text \<open>
  C10. A negative \<open>maxRetries\<close>: the loop body never runs. Nothing is called, no timer is
  set, and the promise is rejected with the value of the never assigned \<open>lastError\<close>,
  \<open>undefined\<close>.
\<close>

theorem negative_maxRetries_throws_undefined:
  fixes task :: "('s, 'o) task"
  assumes "c_maxRetries (readOptions opts) < 0"
  shows "retryMini random task opts s = (Throws JUndefined, [], s)"
  using assms by (simp add: retryMini_def loop_exit)

theorem negative_maxRetries_throws_undefined_witness:
  "retryMini randomMin (succeeding :: (unit, unit) task)
     (Some (noOptions \<lparr> maxRetries := Some (- 1) \<rparr>)) ()
   = (Throws JUndefined, [], ())"
  using negative_maxRetries_throws_undefined
    [of "Some (noOptions \<lparr> maxRetries := Some (- 1) \<rparr>)" randomMin succeeding "()"]
  by (simp add: readOptions_def field_def noOptions_def)

subsection \<open>Where the loop stops, and with which error\<close>

text \<open>
  C3, as the code has it. Attempt \<open>k\<close> failed with \<open>e\<close> and \<open>shouldRetry(e, k)\<close> returned
  \<open>r\<close> (it did not throw). If \<open>r\<close> is \<open>false\<close>, or \<open>k\<close> equals the caller's \<open>maxRetries\<close>
  (3 when unset), the loop stops there: the promise is rejected with \<open>e\<close> (the value of
  \<open>lastError\<close>), the task was called \<open>k + 1\<close> times in all (with \<open>0, ..., k\<close>), the trace
  ends with the call of \<open>shouldRetry\<close> (so no timer and nothing else follows attempt \<open>k\<close>),
  and \<open>onRetry\<close> was not called for attempt \<open>k\<close>.
\<close>

theorem veto_or_last_attempt_stops:
  fixes task :: "('s, 'o) task"
  assumes run: "retryMini random task opts s = (out, evs, s')"
    and failed: "TaskCall k (Throws e) \<in> set evs"
    and asked: "ShouldRetryCall e k (Returns r) \<in> set evs"
    and stop: "r = JBool False \<or> field maxRetries opts = Some (real k)
               \<or> (field maxRetries opts = None \<and> k = 3)"
  shows "out = Throws e \<and>
    map fst (taskCalls evs) = [0..<Suc k] \<and> length (taskCalls evs) = k + 1 \<and>
    (\<exists>pre. evs = pre @ [TaskCall k (Throws e), ShouldRetryCall e k (Returns r)]) \<and>
    (\<forall>e' r'. OnRetryCall e' k r' \<notin> set evs)"
proof -
  from stop have stop': "\<not> truthy (coalesce r (JBool True)) \<or> real k = c_maxRetries (readOptions opts)"
    by (auto simp: coalesce_def readOptions_maxRetries)
  from loop_stops [OF run [unfolded retryMini_def] failed asked stop']
  have *: "out = Throws e" "map fst (taskCalls evs) = [0..<Suc k]"
    "\<exists>pre. evs = pre @ [TaskCall k (Throws e), ShouldRetryCall e k (Returns r)]"
    "\<forall>e' r'. OnRetryCall e' k r' \<notin> set evs" by simp_all
  have "length (taskCalls evs) = length (map fst (taskCalls evs))" by simp
  also have "\<dots> = k + 1" by (simp only: *(2)) simp
  finally show ?thesis using * by simp
qed

text \<open>
  The test of the suite, \<open>maxRetries\<close> 5 and a \<open>shouldRetry\<close> that returns \<open>false\<close>; and
  \<open>maxRetries\<close> 1 with the default \<open>shouldRetry\<close>, where the loop stops at attempt 1 with
  the error of the second call.
\<close>

theorem veto_or_last_attempt_stops_witness:
  "retryMini randomMin (failing :: (unit, unit) task)
     (Some (noOptions \<lparr> maxRetries := Some 5, shouldRetry := Some (hookReturning (JBool False)) \<rparr>)) ()
   = (Throws (JStr ''Permanent Failure''),
      [TaskCall 0 (Throws (JStr ''Permanent Failure'')),
       ShouldRetryCall (JStr ''Permanent Failure'') 0 (Returns (JBool False))], ())
   \<and> fst (retryMini randomMin (failingWith :: (nat, unit) task)
            (Some (noOptions \<lparr> maxRetries := Some 1 \<rparr>)) 0) = Throws (JNum (Num 1))
   \<and> map fst (taskCalls (fst (snd (retryMini randomMin (failingWith :: (nat, unit) task)
            (Some (noOptions \<lparr> maxRetries := Some 1 \<rparr>)) 0)))) = [0, 1]"
proof -
  let ?o5 = "Some (noOptions \<lparr> maxRetries := Some 5, shouldRetry := Some (hookReturning (JBool False)) \<rparr>)
     :: (unit, unit) options option"
  let ?o1 = "Some (noOptions \<lparr> maxRetries := Some 1 \<rparr>) :: (nat, unit) options option"
  have run5: "retryMini randomMin (failing :: (unit, unit) task) ?o5 ()
   = (Throws (JStr ''Permanent Failure''),
      [TaskCall 0 (Throws (JStr ''Permanent Failure'')),
       ShouldRetryCall (JStr ''Permanent Failure'') 0 (Returns (JBool False))], ())"
    by (simp add: run_defs loop.simps)
  obtain out1 evs1 t1 where
    run1: "retryMini randomMin (failingWith :: (nat, unit) task) ?o1 0 = (out1, evs1, t1)"
    by (cases "retryMini randomMin (failingWith :: (nat, unit) task) ?o1 0") auto
  have mem: "TaskCall 1 (Throws (JNum (Num 1))) \<in> set evs1"
    "ShouldRetryCall (JNum (Num 1)) 1 (Returns (JBool True)) \<in> set evs1"
    using run1 by (auto simp: run_defs loop.simps)
  have mr: "field maxRetries ?o1 = Some (real 1)" by (simp add: field_def noOptions_def)
  from veto_or_last_attempt_stops [OF run1 mem] mr
  have last: "out1 = Throws (JNum (Num 1))" "map fst (taskCalls evs1) = [0..<Suc 1]" by simp_all
  have "[0..<Suc 1] = [0, 1]" by (simp add: upt_rec)
  with last have l2: "map fst (taskCalls evs1) = [0, 1]" by simp
  from veto_or_last_attempt_stops [OF run5, of 0 "JStr ''Permanent Failure''" "JBool False"]
    run5 run1 last(1) l2
  show ?thesis by simp
qed

text \<open>
  C3 as stated covers every failed attempt \<open>k\<close> that equals \<open>maxRetries\<close>. Before the loop
  looks at the counter it calls \<open>shouldRetry\<close>; when that call throws on the last attempt,
  the promise is rejected with the hook's error, not with \<open>lastError\<close>.
\<close>

theorem shouldRetry_throws_at_last_attempt_counterexample:
  "retryMini randomMin (failing :: (unit, unit) task)
     (Some (noOptions \<lparr> maxRetries := Some 0, shouldRetry := Some (hookThrowing (JStr ''hook'')) \<rparr>)) ()
   = (Throws (JStr ''hook''),
      [TaskCall 0 (Throws (JStr ''Permanent Failure'')),
       ShouldRetryCall (JStr ''Permanent Failure'') 0 (Throws (JStr ''hook''))], ())
   \<and> (JStr ''hook'' :: unit jsval) \<noteq> JStr ''Permanent Failure''"
  by (simp add: run_defs loop.simps)

text \<open>
  C5. When the promise is rejected with \<open>x\<close> by exhaustion or by veto (no hook threw; there
  was a first attempt, \<open>maxRetries \<ge> 0\<close>), then \<open>x\<close> is the very value that the last call of
  the task threw. The loop builds no error value of its own.
\<close>

theorem failure_is_last_task_error:
  fixes task :: "('s, 'o) task"
  assumes run: "retryMini random task opts s = (Throws x, evs, s')"
    and nohook: "\<forall>ev \<in> set evs. \<not> hookThrew ev"
    and mr: "0 \<le> c_maxRetries (readOptions opts)"
  shows "taskCalls evs \<noteq> [] \<and> snd (last (taskCalls evs)) = Throws x"
proof -
  from mr have "real 0 \<le> c_maxRetries (readOptions opts)" by simp
  from loop_first_call [OF this, of random task JUndefined s] run
  have ne: "taskCalls evs \<noteq> []" by (simp add: retryMini_def)
  with loop_throws_lastError [OF run [unfolded retryMini_def] nohook]
  show ?thesis by simp
qed

text \<open>A task whose error differs from call to call: the error of the last call arrives.\<close>

theorem failure_is_last_task_error_witness:
  "retryMini randomMin (failingWith :: (nat, unit) task)
     (Some (noOptions \<lparr> maxRetries := Some 2 \<rparr>)) 0
   = (Throws (JNum (Num 2)),
      [TaskCall 0 (Throws (JNum (Num 0))), ShouldRetryCall (JNum (Num 0)) 0 (Returns (JBool True)),
       OnRetryCall (JNum (Num 0)) 0 (Returns JUndefined),
       TaskCall 1 (Throws (JNum (Num 1))), ShouldRetryCall (JNum (Num 1)) 1 (Returns (JBool True)),
       OnRetryCall (JNum (Num 1)) 1 (Returns JUndefined),
       TaskCall 2 (Throws (JNum (Num 2))), ShouldRetryCall (JNum (Num 2)) 2 (Returns (JBool True))], 3)
   \<and> last (taskCalls (fst (snd (retryMini randomMin (failingWith :: (nat, unit) task)
     (Some (noOptions \<lparr> maxRetries := Some 2 \<rparr>)) 0)))) = (2, Throws (JNum (Num 2)))"
proof -
  let ?opts = "Some (noOptions \<lparr> maxRetries := Some 2 \<rparr>) :: (nat, unit) options option"
  have run: "retryMini randomMin (failingWith :: (nat, unit) task) ?opts 0
   = (Throws (JNum (Num 2)),
      [TaskCall 0 (Throws (JNum (Num 0))), ShouldRetryCall (JNum (Num 0)) 0 (Returns (JBool True)),
       OnRetryCall (JNum (Num 0)) 0 (Returns JUndefined),
       TaskCall 1 (Throws (JNum (Num 1))), ShouldRetryCall (JNum (Num 1)) 1 (Returns (JBool True)),
       OnRetryCall (JNum (Num 1)) 1 (Returns JUndefined),
       TaskCall 2 (Throws (JNum (Num 2))), ShouldRetryCall (JNum (Num 2)) 2 (Returns (JBool True))], 3)"
    by (simp add: run_defs loop.simps)
  from failure_is_last_task_error [OF run] run
  show ?thesis by (simp add: readOptions_def field_def noOptions_def)
qed

text \<open>
  C9. A call of \<open>shouldRetry\<close> or of \<open>onRetry\<close> during attempt \<open>k\<close> threw \<open>h\<close>. Then the
  promise is rejected with \<open>h\<close> itself, not with the task's error \<open>e\<close>; that call is the
  last event of the trace, and the task was called for \<open>0, ..., k\<close> only.
\<close>

theorem hook_failure_propagates:
  fixes task :: "('s, 'o) task"
  assumes run: "retryMini random task opts s = (out, evs, s')"
    and threw: "ev = ShouldRetryCall e k (Throws h) \<or> ev = OnRetryCall e k (Throws h)"
    and mem: "ev \<in> set evs"
  shows "out = Throws h \<and> last evs = ev \<and> TaskCall k (Throws e) \<in> set evs \<and>
    map fst (taskCalls evs) = [0..<Suc k]"
  using loop_hook_throw [OF run [unfolded retryMini_def] threw mem] by simp

theorem hook_failure_propagates_witness:
  "retryMini randomMin (failing :: (unit, unit) task)
     (Some (noOptions \<lparr> onRetry := Some (hookThrowing (JStr ''hook'')) \<rparr>)) ()
   = (Throws (JStr ''hook''),
      [TaskCall 0 (Throws (JStr ''Permanent Failure'')),
       ShouldRetryCall (JStr ''Permanent Failure'') 0 (Returns (JBool True)),
       OnRetryCall (JStr ''Permanent Failure'') 0 (Throws (JStr ''hook''))], ())
   \<and> retryMini randomMin (failing :: (unit, unit) task)
     (Some (noOptions \<lparr> shouldRetry := Some (hookThrowing (JStr ''hook'')) \<rparr>)) ()
   = (Throws (JStr ''hook''),
      [TaskCall 0 (Throws (JStr ''Permanent Failure'')),
       ShouldRetryCall (JStr ''Permanent Failure'') 0 (Throws (JStr ''hook''))], ())"
proof -
  let ?o1 = "Some (noOptions \<lparr> onRetry := Some (hookThrowing (JStr ''hook'')) \<rparr>) :: (unit, unit) options option"
  let ?o2 = "Some (noOptions \<lparr> shouldRetry := Some (hookThrowing (JStr ''hook'')) \<rparr>) :: (unit, unit) options option"
  have run1: "retryMini randomMin (failing :: (unit, unit) task) ?o1 ()
   = (Throws (JStr ''hook''),
      [TaskCall 0 (Throws (JStr ''Permanent Failure'')),
       ShouldRetryCall (JStr ''Permanent Failure'') 0 (Returns (JBool True)),
       OnRetryCall (JStr ''Permanent Failure'') 0 (Throws (JStr ''hook''))], ())"
    by (simp add: run_defs loop.simps)
  have run2: "retryMini randomMin (failing :: (unit, unit) task) ?o2 ()
   = (Throws (JStr ''hook''),
      [TaskCall 0 (Throws (JStr ''Permanent Failure'')),
       ShouldRetryCall (JStr ''Permanent Failure'') 0 (Throws (JStr ''hook''))], ())"
    by (simp add: run_defs loop.simps)
  from hook_failure_propagates [OF run1,
      of "OnRetryCall (JStr ''Permanent Failure'') 0 (Throws (JStr ''hook''))"
         "JStr ''Permanent Failure''" 0 "JStr ''hook''"]
    hook_failure_propagates [OF run2,
      of "ShouldRetryCall (JStr ''Permanent Failure'') 0 (Throws (JStr ''hook''))"
         "JStr ''Permanent Failure''" 0 "JStr ''hook''"]
    run1 run2
  show ?thesis by simp
qed

subsection \<open>The wait between attempts\<close>

text \<open>
  C4, as the code has it. An attempt \<open>k\<close> that is retried (the body falls through to the
  next iteration) with \<open>jitter\<close> 0 sets one timer of
  \<open>baseDelay * max(1, backoffFactor^k)\<close> milliseconds, computed in double precision and
  used unchanged, or none when that value is not positive. With \<open>baseDelay\<close> 100 and
  \<open>backoffFactor\<close> 2 the timer after attempt 1 (before attempt 2) is 200 and the one after
  attempt 2 (before attempt 3) is 400. A factor between \<open>-1\<close> and 1 gives the wait of
  factor 1. For a positive \<open>baseDelay\<close> \<open>d\<close> (a double) and a factor other than \<open>NaN\<close> the
  wait is a double not below \<open>d\<close>, or \<open>Infinity\<close>.
\<close>

theorem backoff_wait_time:
  fixes task :: "('s, 'o) task"
  shows "(c_jitter c = Num 0 \<and> attempt random task c k le s = (Next, le', evs, s') \<longrightarrow>
            timers evs =
              (if gtZero (mulN (c_baseDelay c) (mathMax (Num 1) (powN (c_backoffFactor c) k)))
               then [mulN (c_baseDelay c) (mathMax (Num 1) (powN (c_backoffFactor c) k))]
               else []))
       \<and> (c_jitter c = Num 0 \<and> c_baseDelay c = Num 100 \<and> c_backoffFactor c = Num 2 \<longrightarrow>
            (attempt random task c 1 le s = (Next, le', evs, s') \<longrightarrow> timers evs = [Num 200]) \<and>
            (attempt random task c 2 le s = (Next, le', evs, s') \<longrightarrow> timers evs = [Num 400]))
       \<and> (- 1 \<le> b \<and> b \<le> 1 \<longrightarrow> rawWait bd (Num b) k = rawWait bd (Num 1) k)
       \<and> (0 < d \<and> round64 d = Num d \<and> bf \<noteq> NaN \<longrightarrow>
            rawWait (Num d) bf k = Infty True \<or> (\<exists>w. rawWait (Num d) bf k = Num w \<and> d \<le> w))"
proof (intro conjI impI)
  assume "c_jitter c = Num 0 \<and> attempt random task c k le s = (Next, le', evs, s')"
  then show "timers evs =
      (if gtZero (mulN (c_baseDelay c) (mathMax (Num 1) (powN (c_backoffFactor c) k)))
       then [mulN (c_baseDelay c) (mathMax (Num 1) (powN (c_backoffFactor c) k))] else [])"
    using attempt_Next_timers_no_jitter [of random task c k le s le' evs s']
    by (simp add: rawWait_def)
next
  assume c: "c_jitter c = Num 0 \<and> c_baseDelay c = Num 100 \<and> c_backoffFactor c = Num 2"
    and "attempt random task c 1 le s = (Next, le', evs, s')"
  then show "timers evs = [Num 200]"
    using attempt_Next_timers_no_jitter [of random task c 1 le s le' evs s']
    by (simp add: rawWait_doubling)
next
  assume c: "c_jitter c = Num 0 \<and> c_baseDelay c = Num 100 \<and> c_backoffFactor c = Num 2"
    and "attempt random task c 2 le s = (Next, le', evs, s')"
  then show "timers evs = [Num 400]"
    using attempt_Next_timers_no_jitter [of random task c 2 le s le' evs s']
    by (simp add: rawWait_doubling)
next
  assume "- 1 \<le> b \<and> b \<le> 1"
  then have "- 1 \<le> b" "b \<le> 1" by simp_all
  then show "rawWait bd (Num b) k = rawWait bd (Num 1) k" by (rule rawWait_small_factor)
next
  assume "0 < d \<and> round64 d = Num d \<and> bf \<noteq> NaN"
  then show "rawWait (Num d) bf k = Infty True \<or> (\<exists>w. rawWait (Num d) bf k = Num w \<and> d \<le> w)"
    using rawWait_at_least [of d bf k] by simp
qed

text \<open>
  The backoff test of the suite (\<open>baseDelay\<close> 100, \<open>backoffFactor\<close> 2), the factor
  \<open>1/2\<close>, and the factor \<open>-2\<close> at attempt 3, where the power is \<open>-8\<close>.
\<close>

theorem backoff_wait_time_witness:
  "timers (fst (snd (snd (attempt randomMin (failing :: (unit, unit) task)
       (readOptions (Some (backoffOptions (Num 2)))) 1 JUndefined ())))) = [Num 200]
   \<and> timers (fst (snd (snd (attempt randomMin (failing :: (unit, unit) task)
       (readOptions (Some (backoffOptions (Num 2)))) 2 JUndefined ())))) = [Num 400]
   \<and> rawWait (Num 100) (Num (1 / 2)) 3 = rawWait (Num 100) (Num 1) 3
   \<and> rawWait (Num 100) (Num (- 2)) 3 = Num 100"
proof -
  let ?c = "readOptions (Some (backoffOptions (Num 2))) :: (unit, unit) settings"
  let ?e = "JStr ''Permanent Failure'' :: unit jsval"
  have c: "c_jitter ?c = Num 0 \<and> c_baseDelay ?c = Num 100 \<and> c_backoffFactor ?c = Num 2"
    by (simp add: readOptions_def field_def backoffOptions_def noOptions_def)
  have step1: "attempt randomMin (failing :: (unit, unit) task) ?c 1 JUndefined ()
       = (Next, ?e, [TaskCall 1 (Throws ?e), ShouldRetryCall ?e 1 (Returns (JBool True)),
                     OnRetryCall ?e 1 (Returns JUndefined), SetTimeout (Num 200)], ())"
    by (simp add: run_defs)
  have step2: "attempt randomMin (failing :: (unit, unit) task) ?c 2 JUndefined ()
       = (Next, ?e, [TaskCall 2 (Throws ?e), ShouldRetryCall ?e 2 (Returns (JBool True)),
                     OnRetryCall ?e 2 (Returns JUndefined), SetTimeout (Num 400)], ())"
    by (simp add: run_defs powN_Num)
  have dbl: "round64 100 = Num 100" by (simp add: round64_numeral)
  have m8: "rawWait (Num 100) (Num (- 2)) 3 = Num 100"
    by (simp add: rawWait_def powN_Num round64_numeral round64_neg_numeral)
  from backoff_wait_time [of ?c randomMin failing 1 JUndefined "()" ?e
      "[TaskCall 1 (Throws ?e), ShouldRetryCall ?e 1 (Returns (JBool True)),
        OnRetryCall ?e 1 (Returns JUndefined), SetTimeout (Num 200)]" "()" "1 / 2" "Num 100" 100
      "Num (- 2)"] c step1
  have a: "timers [TaskCall 1 (Throws ?e), ShouldRetryCall ?e 1 (Returns (JBool True)),
        OnRetryCall ?e 1 (Returns JUndefined), SetTimeout (Num 200)] = [Num 200]" by simp
  from backoff_wait_time [of ?c randomMin failing 3 JUndefined "()" ?e
      "[TaskCall 2 (Throws ?e), ShouldRetryCall ?e 2 (Returns (JBool True)),
        OnRetryCall ?e 2 (Returns JUndefined), SetTimeout (Num 400)]" "()" "1 / 2" "Num 100" 100
      "Num (- 2)"] c step2 dbl
  have b: "timers [TaskCall 2 (Throws ?e), ShouldRetryCall ?e 2 (Returns (JBool True)),
        OnRetryCall ?e 2 (Returns JUndefined), SetTimeout (Num 400)] = [Num 400]
     \<and> rawWait (Num 100) (Num (1 / 2)) 3 = rawWait (Num 100) (Num 1) 3
     \<and> (rawWait (Num 100) (Num (- 2)) 3 = Infty True
          \<or> (\<exists>w. rawWait (Num 100) (Num (- 2)) 3 = Num w \<and> 100 \<le> w))" by simp
  from a b m8 step1 step2 show ?thesis by simp
qed

text \<open>
  C4 as stated says that every factor below 1 gives the wait of factor 1. The factor \<open>-2\<close> is
  below 1, and its even powers exceed 1: the third wait is 400, not 100.
\<close>

theorem backoff_negative_factor_counterexample:
  "timers (fst (snd (retryMini randomMin (failing :: (unit, unit) task)
       (Some (backoffOptions (Num (- 2)))) ()))) = [Num 100, Num 100, Num 400]
   \<and> timers (fst (snd (retryMini randomMin (failing :: (unit, unit) task)
       (Some (backoffOptions (Num 1))) ()))) = [Num 100, Num 100, Num 100]"
  by (simp add: run_defs loop.simps)



text \<open>
  C8, as the code has it. Every timer that a run sets has a positive duration. When the wait
  computed for a retried attempt \<open>k\<close> is not positive (zero, negative or \<open>NaN\<close>), no
  timer is set: the events of attempt \<open>k + 1\<close> follow the draw of the random source
  directly, and the run ends as the rest of the loop ends. (The computed wait itself may be
  negative, see below.)
\<close>

theorem only_positive_waits_set_a_timer:
  fixes task :: "('s, 'o) task"
  shows "(retryMini random task opts s = (out, evs, s') \<and> SetTimeout t \<in> set evs \<longrightarrow> gtZero t)
    \<and> (real k \<le> c_maxRetries c \<and> task k s = (Throws e, s1) \<and>
        c_shouldRetry c e k s1 = (Returns r, s2) \<and> truthy (coalesce r (JBool True)) \<and>
        real k \<noteq> c_maxRetries c \<and> c_onRetry c e k s2 = (Returns u, s3) \<and>
        computeWait random c k s3 = (w, draws, s4) \<and> \<not> gtZero w \<and>
        loop random task c (Suc k) e s4 = (out', evs', s'')
        \<longrightarrow> loop random task c k le s
              = (out', [TaskCall k (Throws e), ShouldRetryCall e k (Returns r),
                        OnRetryCall e k (Returns u)] @ draws @ evs', s'')
            \<and> timers draws = [])"
proof (rule conjI; rule impI)
  assume "retryMini random task opts s = (out, evs, s') \<and> SetTimeout t \<in> set evs"
  then show "gtZero t"
    using loop_timers_positive [of random task "readOptions opts" 0 JUndefined s out evs s' t]
    by (simp add: retryMini_def)
next
  assume a: "real k \<le> c_maxRetries c \<and> task k s = (Throws e, s1) \<and>
        c_shouldRetry c e k s1 = (Returns r, s2) \<and> truthy (coalesce r (JBool True)) \<and>
        real k \<noteq> c_maxRetries c \<and> c_onRetry c e k s2 = (Returns u, s3) \<and>
        computeWait random c k s3 = (w, draws, s4) \<and> \<not> gtZero w \<and>
        loop random task c (Suc k) e s4 = (out', evs', s'')"
  then have att: "attempt random task c k le s
      = (Next, e, [TaskCall k (Throws e), ShouldRetryCall e k (Returns r),
                   OnRetryCall e k (Returns u)] @ draws @ sleep w, s4)"
    by (simp add: attempt_def)
  from a have le: "real k \<le> c_maxRetries c"
    and rest: "loop random task c (Suc k) e s4 = (out', evs', s'')"
    and w: "\<not> gtZero w" and cw: "computeWait random c k s3 = (w, draws, s4)" by simp_all
  from w have "(sleep w :: 'o event list) = []" by (simp add: sleep_def)
  with loop_Next [OF le att rest] timers_draws [OF cw]
  show "loop random task c k le s
              = (out', [TaskCall k (Throws e), ShouldRetryCall e k (Returns r),
                        OnRetryCall e k (Returns u)] @ draws @ evs', s'')
            \<and> timers draws = []" by simp
qed

text \<open>
  The test of the suite: \<open>jitter\<close> 2 with \<open>Math.random\<close> returning 0. No timer, and the
  promise resolves with the value of the second attempt.
\<close>

theorem only_positive_waits_set_a_timer_witness:
  "retryMini randomMin (mockOnce :: (nat, unit) task) (Some (jitterOptions (Num 2))) 0
     = (Returns (JStr ''Done''),
        [TaskCall 0 (Throws (JStr ''Fail'')),
         ShouldRetryCall (JStr ''Fail'') 0 (Returns (JBool True)),
         OnRetryCall (JStr ''Fail'') 0 (Returns JUndefined),
         RandomCall (Num 0),
         TaskCall 1 (Returns (JStr ''Done''))], 2)
   \<and> gtZero (Num 50)"
proof -
  let ?c = "readOptions (Some (jitterOptions (Num 2))) :: (nat, unit) settings"
  let ?e = "JStr ''Fail'' :: unit jsval"
  have rest: "loop randomMin (mockOnce :: (nat, unit) task) ?c (Suc 0) ?e 1
      = (Returns (JStr ''Done''), [TaskCall 1 (Returns (JStr ''Done''))], 2)"
    by (simp add: run_defs loop.simps)
  have cw: "computeWait randomMin ?c 0 (1 :: nat) = (Num (- 100), [RandomCall (Num 0) :: unit event], 1)"
    by (simp add: run_defs)
  have hyps: "real 0 \<le> c_maxRetries ?c \<and> (mockOnce :: (nat, unit) task) 0 0 = (Throws ?e, 1) \<and>
        c_shouldRetry ?c ?e 0 1 = (Returns (JBool True), 1) \<and>
        truthy (coalesce (JBool True :: unit jsval) (JBool True)) \<and>
        real 0 \<noteq> c_maxRetries ?c \<and> c_onRetry ?c ?e 0 1 = (Returns JUndefined, 1) \<and>
        \<not> gtZero (Num (- 100))"
    by (simp add: run_defs)
  have run50: "retryMini randomMin (mockOnce :: (nat, unit) task) (Some (jitterOptions (Num (1 / 2)))) 0
     = (Returns (JStr ''Done''),
        [TaskCall 0 (Throws (JStr ''Fail'')),
         ShouldRetryCall (JStr ''Fail'') 0 (Returns (JBool True)),
         OnRetryCall (JStr ''Fail'') 0 (Returns JUndefined),
         RandomCall (Num 0), SetTimeout (Num 50),
         TaskCall 1 (Returns (JStr ''Done''))], 2)"
    by (simp add: run_defs round64_half loop.simps)
  from only_positive_waits_set_a_timer [where random = randomMin and task = "mockOnce :: (nat, unit) task"
      and opts = "Some (jitterOptions (Num (1 / 2)))" and s = 0 and t = "Num 50" and c = ?c and k = 0 and e = ?e and ?s1.0 = 1
      and r = "JBool True" and ?s2.0 = 1 and u = JUndefined and ?s3.0 = 1 and w = "Num (- 100)"
      and draws = "[RandomCall (Num 0)]" and ?s4.0 = 1 and out' = "Returns (JStr ''Done'')"
      and evs' = "[TaskCall 1 (Returns (JStr ''Done''))]" and s'' = 2 and le = JUndefined
      and out = "Returns (JStr ''Done'')" and s' = 2
      and evs = "[TaskCall 0 (Throws (JStr ''Fail'')),
         ShouldRetryCall (JStr ''Fail'') 0 (Returns (JBool True)),
         OnRetryCall (JStr ''Fail'') 0 (Returns JUndefined),
         RandomCall (Num 0), SetTimeout (Num 50),
         TaskCall 1 (Returns (JStr ''Done''))]"]
    rest cw hyps run50
  show ?thesis by (simp add: retryMini_def)
qed

text \<open>
  C8 as stated says that the computed wait time is never negative. With \<open>baseDelay\<close> 100,
  \<open>jitter\<close> 2 and the draw 0 the variable \<open>waitTime\<close> is \<open>floor(100 * -1) = -100\<close>.
\<close>

theorem negative_wait_counterexample:
  "computeWait randomMin (readOptions (Some (jitterOptions (Num 2))) :: (unit, unit) settings) 0 ()
     = (Num (- 100), [RandomCall (Num 0)], ())
   \<and> (- 100 :: real) < 0"
  by (simp add: run_defs)

subsection \<open>What \<open>shouldRetry\<close> returns\<close>




end
